theory Spec2Isabelle
  imports Main "HOL-Library.Word" "HOL-Library.AList" "HOL-Library.Sublist"
begin

chapter \<open>Definitions\<close>

section \<open>Python values and exceptions\<close>

text \<open>
  A raised object is identified by its class. \<^verbatim>\<open>except Exception\<close> catches the classes
  derived from \<^verbatim>\<open>Exception\<close>; \<^verbatim>\<open>KeyboardInterrupt\<close>, \<^verbatim>\<open>SystemExit\<close> and
  \<^verbatim>\<open>GeneratorExit\<close> derive from \<^verbatim>\<open>BaseException\<close> only and pass through it.
\<close>

datatype py_error =
    ValueError | TypeError | KeyError | AttributeError | SystemError | OverflowError
  | OtherException string
  | KeyboardInterrupt | SystemExit | GeneratorExit

fun is_Exception :: "py_error \<Rightarrow> bool" where
  "is_Exception KeyboardInterrupt = False"
| "is_Exception SystemExit = False"
| "is_Exception GeneratorExit = False"
| "is_Exception _ = True"

text \<open>
  Values: immutable ones by value, mutable containers and instances by reference into a
  heap. The heap is a list of objects, a reference is an index into it, and allocation
  appends, so a new object has a reference no live object has.
\<close>

type_synonym ref = nat

datatype pyval =
    PNone | PBool bool | PInt int | PStr string
  | PExc py_error
  | PRef ref

datatype heap_object =
    PList "pyval list"
  | PDict "(pyval \<times> pyval) list"
  | PSet "pyval list"
  | PInstance string

type_synonym heap = "heap_object list"

definition lookup :: "heap \<Rightarrow> ref \<Rightarrow> heap_object option" where
  "lookup h r = (if r < length h then Some (h ! r) else None)"

definition alloc :: "heap \<Rightarrow> heap_object \<Rightarrow> ref \<times> heap" where
  "alloc h obj = (length h, h @ [obj])"



section \<open>Colliding key generator (tricky\_colliding\_keys.py)\<close>

text \<open>
  The subject's \<^verbatim>\<open>_rehash\<close> method is external. It is a parameter of the model; following
  the source comment ("the full 64-bit rehash value") its result is a 64-bit unsigned value,
  read as a Python integer with \<open>uint\<close>. The module-level \<^verbatim>\<open>_DUMMY_DICT\<close> is
  \<open>None\<close> when the subject's map type is unavailable, and otherwise gives access to
  \<^verbatim>\<open>_rehash\<close>.
\<close>

type_synonym rehash_fn = "int \<Rightarrow> 64 word"

datatype message = Generating int | ExhaustedWarning int

text \<open>Python's \<^verbatim>\<open>x >> n\<close> on integers: a negative shift count raises ValueError.\<close>

definition py_rshift :: "int \<Rightarrow> int \<Rightarrow> py_error + int" where
  "py_rshift x n = (if n < 0 then Inl ValueError else Inr (drop_bit (nat n) x))"

text \<open>
  \<^verbatim>\<open>results\<close> is a \<^verbatim>\<open>defaultdict(list)\<close>: an insertion-ordered association list.
  Reading \<^verbatim>\<open>results[bucket]\<close> inserts an empty list under a missing key.
\<close>

type_synonym results = "(int \<times> int list) list"

definition touch :: "results \<Rightarrow> int \<Rightarrow> results" where
  "touch rs b = (case map_of rs b of None \<Rightarrow> rs @ [(b, [])] | Some _ \<Rightarrow> rs)"

definition bucket_list :: "results \<Rightarrow> int \<Rightarrow> int list" where
  "bucket_list rs b = (case map_of rs b of None \<Rightarrow> [] | Some ks \<Rightarrow> ks)"

record search_state =
  results :: results
  filled_buckets :: "int set"

definition init_state :: search_state where
  "init_state = \<lparr>results = [], filled_buckets = {}\<rparr>"

text \<open>
  Lines 64--66: \<^verbatim>\<open>if bucket < num_buckets_to_fill and len(results[bucket]) < keys_per_bucket\<close>.
  The \<^verbatim>\<open>and\<close> short-circuits, so \<^verbatim>\<open>results[bucket]\<close> is only read (and the key only
  created) for a bucket below \<^verbatim>\<open>num_buckets_to_fill\<close>.
\<close>

definition examine :: "int \<Rightarrow> int \<Rightarrow> search_state \<Rightarrow> int \<Rightarrow> int \<Rightarrow> search_state" where
  "examine num_buckets_to_fill keys_per_bucket st bucket i =
     (if bucket < num_buckets_to_fill then
        (let rs = touch (results st) bucket in
         if int (length (bucket_list rs bucket)) < keys_per_bucket
         then \<lparr>results = AList.update bucket (bucket_list rs bucket @ [i]) rs,
               filled_buckets = insert bucket (filled_buckets st)\<rparr>
         else st\<lparr>results := rs\<rparr>)
      else st)"

text \<open>Lines 69--76: the test that leads to \<^verbatim>\<open>break\<close>.\<close>

definition all_full :: "int \<Rightarrow> int \<Rightarrow> results \<Rightarrow> bool" where
  "all_full num_buckets_to_fill keys_per_bucket rs =
     list_all (\<lambda>(k, v). int (length v) \<ge> keys_per_bucket)
       (filter (\<lambda>(k, v). k < num_buckets_to_fill) rs)"

definition stop_now :: "int \<Rightarrow> int \<Rightarrow> search_state \<Rightarrow> bool" where
  "stop_now num_buckets_to_fill keys_per_bucket st =
     (int (card (filled_buckets st)) \<ge> num_buckets_to_fill
      \<and> all_full num_buckets_to_fill keys_per_bucket (results st))"

text \<open>
  The \<^verbatim>\<open>for i in range(limit)\<close> loop with its \<^verbatim>\<open>break\<close> and \<^verbatim>\<open>else\<close>. The Boolean of
  the result says whether the loop was left by \<^verbatim>\<open>break\<close>.
\<close>

function search_candidates ::
  "rehash_fn \<Rightarrow> int \<Rightarrow> int \<Rightarrow> int \<Rightarrow> nat \<Rightarrow> nat \<Rightarrow> search_state
     \<Rightarrow> py_error + (search_state \<times> bool)" where
  "search_candidates rehash log_size num_buckets_to_fill keys_per_bucket limit i st =
     (if i < limit then
        (case py_rshift (uint (rehash (int i))) (64 - log_size) of
           Inl e \<Rightarrow> Inl e
         | Inr bucket \<Rightarrow>
             (let st' = examine num_buckets_to_fill keys_per_bucket st bucket (int i) in
              if stop_now num_buckets_to_fill keys_per_bucket st'
              then Inr (st', True)
              else search_candidates rehash log_size num_buckets_to_fill keys_per_bucket
                     limit (Suc i) st'))
      else Inr (st, False))"
  by pat_completeness auto
termination
  by (relation "measure (\<lambda>(rehash, log_size, nb, kpb, limit, i, st). limit - i)") auto

declare search_candidates.simps [simp del]

definition SEARCH_CEILING :: nat where
  "SEARCH_CEILING = 2 ^ 24"

definition generate_colliding_keys_upto ::
  "nat \<Rightarrow> rehash_fn option \<Rightarrow> int \<Rightarrow> int \<Rightarrow> int \<Rightarrow> py_error + (results \<times> message list)" where
  "generate_colliding_keys_upto limit dummy_dict log_size num_buckets_to_fill keys_per_bucket =
     (case dummy_dict of
        None \<Rightarrow> Inr ([], [])
      | Some rehash \<Rightarrow>
          (case search_candidates rehash log_size num_buckets_to_fill keys_per_bucket
                  limit 0 init_state of
             Inl e \<Rightarrow> Inl e
           | Inr (st, broke) \<Rightarrow>
               Inr (results st,
                    Generating log_size # (if broke then [] else [ExhaustedWarning log_size]))))"

definition generate_colliding_keys ::
  "rehash_fn option \<Rightarrow> int \<Rightarrow> int \<Rightarrow> int \<Rightarrow> py_error + (results \<times> message list)" where
  "generate_colliding_keys = generate_colliding_keys_upto SEARCH_CEILING"

subsection \<open>Specification-side notions for the search\<close>

text \<open>The bucket of a candidate, when the shift count \<open>64 - log_size\<close> is not negative.\<close>

definition bucket_of :: "rehash_fn \<Rightarrow> int \<Rightarrow> int \<Rightarrow> int" where
  "bucket_of rehash log_size i = drop_bit (nat (64 - log_size)) (uint (rehash i))"

text \<open>
  The state after the loop body has run for the candidates \<open>0, 1, ..., n - 1\<close> in this
  order (without the \<^verbatim>\<open>break\<close>).
\<close>

primrec examined :: "rehash_fn \<Rightarrow> int \<Rightarrow> int \<Rightarrow> int \<Rightarrow> nat \<Rightarrow> search_state" where
  "examined rehash log_size num_buckets_to_fill keys_per_bucket 0 = init_state"
| "examined rehash log_size num_buckets_to_fill keys_per_bucket (Suc n) =
     examine num_buckets_to_fill keys_per_bucket
       (examined rehash log_size num_buckets_to_fill keys_per_bucket n)
       (bucket_of rehash log_size (int n)) (int n)"

text \<open>The first \<open>keys_per_bucket\<close> candidates below \<open>n\<close> that fall into bucket \<open>b\<close>.\<close>

definition bucket_keys :: "rehash_fn \<Rightarrow> int \<Rightarrow> int \<Rightarrow> nat \<Rightarrow> int \<Rightarrow> int list" where
  "bucket_keys rehash log_size keys_per_bucket n b =
     take (nat keys_per_bucket)
       (filter (\<lambda>k. bucket_of rehash log_size k = b) (map int [0..<n]))"

text \<open>Every targeted bucket \<open>0 \<le> b < num_buckets_to_fill\<close> holds its quota of keys.\<close>

definition quota_reached :: "int \<Rightarrow> int \<Rightarrow> results \<Rightarrow> bool" where
  "quota_reached num_buckets_to_fill keys_per_bucket rs =
     (\<forall>b. 0 \<le> b \<and> b < num_buckets_to_fill
           \<longrightarrow> keys_per_bucket \<le> int (length (bucket_list rs b)))"

text \<open>Some bucket of the result holds at least one key.\<close>

definition has_populated_bucket :: "results \<Rightarrow> bool" where
  "has_populated_bucket rs = list_ex (\<lambda>(bucket, keys). keys \<noteq> []) rs"

section \<open>Injected behaviours (tricky\_weird\_cereggii.py)\<close>

subsection \<open>\<^verbatim>\<open>make_wrong_typer\<close>\<close>

text \<open>
  \<^verbatim>\<open>wrong_typer(method_name, self, *args, **kwargs)\<close> for a configured \<^verbatim>\<open>return_value\<close>.
  The marker test comes first, as in the source; \<^verbatim>\<open>.copy()\<close> of a list, dict or set
  allocates a new container with the same elements (a shallow copy: the elements
  themselves are shared).
\<close>

definition wrong_typer :: "pyval \<Rightarrow> pyval \<Rightarrow> heap \<Rightarrow> pyval \<times> heap" where
  "wrong_typer return_value self h =
     (if return_value = PStr ''self'' then (self, h)
      else (case return_value of
              PRef r \<Rightarrow>
                (case lookup h r of
                   Some (PList xs) \<Rightarrow> (let (r', h') = alloc h (PList xs) in (PRef r', h'))
                 | Some (PDict kvs) \<Rightarrow> (let (r', h') = alloc h (PDict kvs) in (PRef r', h'))
                 | Some (PSet xs) \<Rightarrow> (let (r', h') = alloc h (PSet xs) in (PRef r', h'))
                 | _ \<Rightarrow> (return_value, h))
            | _ \<Rightarrow> (return_value, h)))"

text \<open>The configured value is a list, a dict or a set.\<close>

definition is_container :: "heap \<Rightarrow> pyval \<Rightarrow> bool" where
  "is_container h v =
     (case v of
        PRef r \<Rightarrow> (case lookup h r of
                     Some (PList xs) \<Rightarrow> True | Some (PDict kvs) \<Rightarrow> True
                   | Some (PSet xs) \<Rightarrow> True | _ \<Rightarrow> False)
      | _ \<Rightarrow> False)"

text \<open>A caller mutates the object behind a reference: the heap cell gets a new content.\<close>

definition mutate :: "heap \<Rightarrow> ref \<Rightarrow> heap_object \<Rightarrow> heap" where
  "mutate h r obj = h[r := obj]"

subsection \<open>\<^verbatim>\<open>super_caller_abuse\<close>\<close>

text \<open>
  The inherited operation is external: a function of the positional arguments, the keyword
  arguments and the subject's state, which raises or returns and leaves a new state.
  \<^verbatim>\<open>getattr(super(...), method_name, None)\<close> is \<open>None\<close> when the base has no such
  attribute; a value that is not callable is treated alike (no call is made).
\<close>

type_synonym 's py_method =
  "pyval list \<Rightarrow> (string \<times> pyval) list \<Rightarrow> 's \<Rightarrow> (py_error + pyval) \<times> 's"

text \<open>The handler \<^verbatim>\<open>except Exception as e: return e\<close>.\<close>

definition return_caught :: "py_error \<Rightarrow> 's \<Rightarrow> (py_error + pyval) \<times> 's" where
  "return_caught e s = (if is_Exception e then (Inr (PExc e), s) else (Inl e, s))"

definition super_caller_abuse ::
  "'s py_method option \<Rightarrow> pyval list \<Rightarrow> (string \<times> pyval) list \<Rightarrow> 's
     \<Rightarrow> (py_error + pyval) \<times> 's" where
  "super_caller_abuse super_method args kwargs s =
     (case super_method of
        None \<Rightarrow> (Inr PNone, s)
      | Some m \<Rightarrow>
          (case m args kwargs s of
             (Inl e, s1) \<Rightarrow> return_caught e s1
           | (Inr _, s1) \<Rightarrow>
               (case m args kwargs s1 of
                  (Inl e, s2) \<Rightarrow> return_caught e s2
                | (Inr _, s2) \<Rightarrow>
                    (case m [PInt 9999, PStr ''extra_arg''] [(''bogus_kwarg'', PBool True)] s2 of
                       (Inl e, s3) \<Rightarrow> return_caught e s3
                     | (Inr _, s3) \<Rightarrow> (Inr PNone, s3)))))"

text \<open>
  The calls the behaviour makes, in order, up to the first one that raises: the object
  raised first, if any.
\<close>

definition first_raised ::
  "'s py_method \<Rightarrow> pyval list \<Rightarrow> (string \<times> pyval) list \<Rightarrow> 's \<Rightarrow> py_error option" where
  "first_raised m args kwargs s =
     (case m args kwargs s of
        (Inl e, s1) \<Rightarrow> Some e
      | (Inr _, s1) \<Rightarrow>
          (case m args kwargs s1 of
             (Inl e, s2) \<Rightarrow> Some e
           | (Inr _, s2) \<Rightarrow>
               (case m [PInt 9999, PStr ''extra_arg''] [(''bogus_kwarg'', PBool True)] s2 of
                  (Inl e, s3) \<Rightarrow> Some e
                | (Inr _, s3) \<Rightarrow> None)))"


section \<open>The shared-counter contention scenario (tricky\_concurrency\_hell.py)\<close>

text \<open>
  The counter and the thread set belong to the subject library. Their joint behaviour is
  the parameter \<open>counter_after\<close>: the value \<^verbatim>\<open>counter.get()\<close> returns once
  \<^verbatim>\<open>worker.start_and_join()\<close> has returned, for the given thread and operation counts. The
  scenario prints to stderr (the message list) and returns a Boolean.
\<close>

datatype dogpile_message = FinalCountWrong int int

definition dogpile_on_atomicint ::
  "(int \<Rightarrow> int \<Rightarrow> int) \<Rightarrow> int \<Rightarrow> int \<Rightarrow> dogpile_message list \<times> bool" where
  "dogpile_on_atomicint counter_after num_threads ops_per_thread =
     (let expected = num_threads * ops_per_thread;
          actual = counter_after num_threads ops_per_thread
      in (if actual \<noteq> expected then [FinalCountWrong expected actual] else [], True))"

section \<open>The unstable-hash object (tricky\_atomicdict.py)\<close>

text \<open>
  The module-level \<^verbatim>\<open>_unstable_hash_counter = itertools.count()\<close> is the field
  \<open>unstable_hash_counter\<close> of the world: the value the next \<^verbatim>\<open>next()\<close> yields. Objects live
  in a store; an \<^verbatim>\<open>UnstableHash\<close> instance has the one field \<^verbatim>\<open>_initial_hash\<close>.
\<close>

datatype py_object = UnstableHash (initial_hash: int) | OtherObject

record world =
  unstable_hash_counter :: int
  store :: "ref \<Rightarrow> py_object option"

definition next_count :: "world \<Rightarrow> int \<times> world" where
  "next_count w = (unstable_hash_counter w, w\<lparr>unstable_hash_counter := unstable_hash_counter w + 1\<rparr>)"

text \<open>\<^verbatim>\<open>__init__\<close> on the new object at reference \<open>r\<close>.\<close>

definition UnstableHash_init :: "ref \<Rightarrow> world \<Rightarrow> world" where
  "UnstableHash_init r w =
     (let (c, w') = next_count w in w'\<lparr>store := (store w')(r \<mapsto> UnstableHash c)\<rparr>)"

definition UnstableHash_hash :: "ref \<Rightarrow> world \<Rightarrow> int \<times> world" where
  "UnstableHash_hash self w = next_count w"

definition UnstableHash_eq :: "world \<Rightarrow> ref \<Rightarrow> ref \<Rightarrow> bool" where
  "UnstableHash_eq w self other =
     (case store w other of
        Some (UnstableHash h') \<Rightarrow>
          (case store w self of Some (UnstableHash h) \<Rightarrow> h = h' | _ \<Rightarrow> False)
      | _ \<Rightarrow> False)"

text \<open>The world after \<^verbatim>\<open>__hash__\<close> has been called on each object of a list, in order.\<close>

fun hash_calls :: "ref list \<Rightarrow> world \<Rightarrow> world" where
  "hash_calls [] w = w"
| "hash_calls (r # rs) w = hash_calls rs (snd (UnstableHash_hash r w))"

definition is_UnstableHash :: "world \<Rightarrow> ref \<Rightarrow> bool" where
  "is_UnstableHash w r = (case store w r of Some (UnstableHash h) \<Rightarrow> True | _ \<Rightarrow> False)"


section \<open>Variant generation loop (tricky\_weird\_cereggii.py)\<close>

text \<open>
  The tables of the source. \<^verbatim>\<open>malicious_behaviors\<close> has its tenth entry only when the
  import of \<^verbatim>\<open>FrameModifier\<close> succeeded (\<^verbatim>\<open>_HAS_DEPS\<close>). Only the names matter to
  the loop: the class and the behaviour function reach the external constructor, which is
  the parameter \<open>instantiate\<close> and may depend on the whole combination.
  \<^verbatim>\<open>create_weird_subclass\<close> has no failing branch of its own.
\<close>

datatype base_class = AtomicInt64 | CountDownLatch | ThreadHandle

fun class_name :: "base_class \<Rightarrow> string" where
  "class_name AtomicInt64 = ''AtomicInt64''"
| "class_name CountDownLatch = ''CountDownLatch''"
| "class_name ThreadHandle = ''ThreadHandle''"

definition TARGET_METHODS :: "(base_class \<times> string list) list" where
  "TARGET_METHODS =
     [(AtomicInt64, [''get'', ''set'', ''compare_and_set'', ''__int__'', ''__add__'',
                     ''__iadd__'', ''update_and_get'', ''get_and_update'']),
      (CountDownLatch, [''wait'', ''decrement'', ''get'']),
      (ThreadHandle, [''__getattr__'', ''__call__'', ''__getitem__'', ''__setitem__''])]"

definition malicious_behaviors :: "bool \<Rightarrow> string list" where
  "malicious_behaviors has_deps =
     [''raise_ValueError'', ''raise_TypeError'', ''raise_AttributeError'', ''raise_SystemError'',
      ''return_None'', ''return_string'', ''return_int'', ''return_self'', ''abuse_super'']
     @ (if has_deps then [''side_effect_mutate_local''] else [])"

type_synonym combination = "base_class \<times> string \<times> string"

definition combinations :: "bool \<Rightarrow> combination list" where
  "combinations has_deps =
     concat (map (\<lambda>(base, methods).
        concat (map (\<lambda>method_name.
           map (\<lambda>behavior_name. (base, method_name, behavior_name))
             (malicious_behaviors has_deps)) methods)) TARGET_METHODS)"

text \<open>\<^verbatim>\<open>create_weird_subclass\<close> names the class; line 232 names the instance.\<close>

fun weird_class_name :: "combination \<Rightarrow> string" where
  "weird_class_name (base, method_name, behavior_name) =
     ''Weird_'' @ class_name base @ ''_Override_'' @ method_name @ ''_'' @ behavior_name"

definition instance_name :: "combination \<Rightarrow> string" where
  "instance_name c = ''instance_of_'' @ weird_class_name c"



text \<open>The constructor arguments of line 217--222.\<close>

fun init_args :: "combination \<Rightarrow> pyval list" where
  "init_args (CountDownLatch, method_name, behavior_name) = [PInt 1]"
| "init_args (ThreadHandle, method_name, behavior_name) = [PNone]"
| "init_args (AtomicInt64, method_name, behavior_name) = []"

text \<open>
  The loop of lines 206--233 over the combinations in order: a raised \<^verbatim>\<open>Exception\<close> is
  printed and the combination skipped, any other raised object leaves the loop, and a new
  instance is stored under its name (a dict assignment).
\<close>

datatype catalog_message = CouldNotInstantiate string py_error

record 'i build_state =
  catalog :: "(string \<times> 'i) list"
  stderr :: "catalog_message list"

fun generate ::
  "(combination \<Rightarrow> pyval list \<Rightarrow> py_error + 'i) \<Rightarrow> combination list \<Rightarrow> 'i build_state
     \<Rightarrow> py_error + 'i build_state" where
  "generate instantiate [] st = Inr st"
| "generate instantiate (c # cs) st =
     (case instantiate c (init_args c) of
        Inl e \<Rightarrow>
          if is_Exception e
          then generate instantiate cs
                 (st\<lparr>stderr := stderr st @ [CouldNotInstantiate (weird_class_name c) e]\<rparr>)
          else Inl e
      | Inr inst \<Rightarrow>
          generate instantiate cs
            (st\<lparr>catalog := AList.update (instance_name c) inst (catalog st)\<rparr>))"

definition tricky_weird_cereggii_objects ::
  "bool \<Rightarrow> (combination \<Rightarrow> pyval list \<Rightarrow> py_error + 'i) \<Rightarrow> py_error + 'i build_state" where
  "tricky_weird_cereggii_objects has_deps instantiate =
     generate instantiate (combinations has_deps) \<lparr>catalog = [], stderr = []\<rparr>"

text \<open>What the constructor did for a combination: the instance, or the object raised.\<close>

definition created :: "(combination \<Rightarrow> pyval list \<Rightarrow> py_error + 'i) \<Rightarrow> combination \<Rightarrow> 'i option" where
  "created instantiate c = (case instantiate c (init_args c) of Inr inst \<Rightarrow> Some inst | Inl e \<Rightarrow> None)"

definition failure :: "(combination \<Rightarrow> pyval list \<Rightarrow> py_error + 'i) \<Rightarrow> combination \<Rightarrow> py_error option" where
  "failure instantiate c = (case instantiate c (init_args c) of Inr inst \<Rightarrow> None | Inl e \<Rightarrow> Some e)"

definition warnings :: "(combination \<Rightarrow> pyval list \<Rightarrow> py_error + 'i) \<Rightarrow> combination list \<Rightarrow> catalog_message list" where
  "warnings instantiate cs =
     List.map_filter (\<lambda>c. map_option (CouldNotInstantiate (weird_class_name c)) (failure instantiate c)) cs"

section \<open>The random-operations scenario (tricky\_stateful\_scenarios.py)\<close>

text \<open>
  The atomic map is the subject under test and the keys are adversarial objects, so
  neither structure is assumed to behave like a map: each is given by its operations on a
  state. An operation raises (\<open>Some e\<close>) or not and leaves a new state; \<^verbatim>\<open>len\<close> raises
  or returns the length.
\<close>

datatype operation = Setitem | Getitem | Delitem | Len

record ('s, 'k, 'v) dict_ops =
  setitem :: "'k \<Rightarrow> 'v \<Rightarrow> 's \<Rightarrow> py_error option \<times> 's"
  getitem :: "'k \<Rightarrow> 's \<Rightarrow> py_error option \<times> 's"
  delitem :: "'k \<Rightarrow> 's \<Rightarrow> py_error option \<times> 's"
  len :: "'s \<Rightarrow> py_error + int"

fun apply_op :: "('s, 'k, 'v) dict_ops \<Rightarrow> operation \<Rightarrow> 'k \<Rightarrow> 'v \<Rightarrow> 's \<Rightarrow> py_error option \<times> 's" where
  "apply_op ops Setitem key val s = setitem ops key val s"
| "apply_op ops Getitem key val s = getitem ops key s"
| "apply_op ops Delitem key val s = delitem ops key s"
| "apply_op ops Len key val s = (case len ops s of Inl e \<Rightarrow> (Some e, s) | Inr n \<Rightarrow> (None, s))"

datatype random_ops_message =
    ModelDidNotRaise py_error
  | MismatchedExceptionTypes py_error py_error
  | LengthMismatch nat operation int int

text \<open>
  The handler of \<^verbatim>\<open>except (KeyError, TypeError) as e\<close> (lines 222--240): it repeats a
  \<^verbatim>\<open>getitem\<close> or \<^verbatim>\<open>delitem\<close> on the model, prints an error when the model does not raise,
  and compares the types when it raises an \<^verbatim>\<open>Exception\<close>; any other raised object
  propagates.
\<close>

definition handle_expected ::
  "('m, 'k, 'v) dict_ops \<Rightarrow> py_error \<Rightarrow> operation \<Rightarrow> 'k \<Rightarrow> 'm
     \<Rightarrow> py_error + ('m \<times> random_ops_message list)" where
  "handle_expected M e op key m =
     (let (r, m') = (if op = Getitem then getitem M key m
                     else if op = Delitem then delitem M key m
                     else (None, m))
      in case r of
           None \<Rightarrow> Inr (m', [ModelDidNotRaise e])
         | Some model_e \<Rightarrow>
             if is_Exception model_e
             then Inr (m', if e \<noteq> model_e then [MismatchedExceptionTypes e model_e] else [])
             else Inl model_e)"

text \<open>
  The \<^verbatim>\<open>try\<close> statement of one step (lines 207--240): the operation on the atomic map,
  then the same operation on the model; \<^verbatim>\<open>KeyError\<close> and \<^verbatim>\<open>TypeError\<close> from either go
  to the handler, anything else propagates.
\<close>

definition try_step ::
  "('d, 'k, 'v) dict_ops \<Rightarrow> ('m, 'k, 'v) dict_ops \<Rightarrow> operation \<times> 'k \<times> 'v \<Rightarrow> 'd \<Rightarrow> 'm
     \<Rightarrow> py_error + ('d \<times> 'm \<times> random_ops_message list)" where
  "try_step D M step d m =
     (let (op, key, val) = step;
          (r, d') = apply_op D op key val d
      in case r of
           Some e \<Rightarrow>
             if e = KeyError \<or> e = TypeError
             then (case handle_expected M e op key m of
                     Inl x \<Rightarrow> Inl x
                   | Inr (m', out) \<Rightarrow> Inr (d', m', out))
             else Inl e
         | None \<Rightarrow>
             (let (r', m') = apply_op M op key val m
              in case r' of
                   Some e \<Rightarrow>
                     if e = KeyError \<or> e = TypeError
                     then (case handle_expected M e op key m' of
                             Inl x \<Rightarrow> Inl x
                           | Inr (m'', out) \<Rightarrow> Inr (d', m'', out))
                     else Inl e
                 | None \<Rightarrow> Inr (d', m', [])))"

text \<open>
  The loop over the steps, numbered from \<open>n\<close>, with the length check of lines 243--248
  after each. The choices of \<^verbatim>\<open>random.choice\<close> are the given list of steps (operation,
  key, value); \<^verbatim>\<open>num_steps\<close> is its length. The result is the value returned or the
  object that propagates, with the lines printed.
\<close>

fun run_steps ::
  "('d, 'k, 'v) dict_ops \<Rightarrow> ('m, 'k, 'v) dict_ops \<Rightarrow> nat \<Rightarrow> (operation \<times> 'k \<times> 'v) list
     \<Rightarrow> 'd \<Rightarrow> 'm \<Rightarrow> (py_error + bool) \<times> random_ops_message list" where
  "run_steps D M n [] d m = (Inr True, [])"
| "run_steps D M n (step # steps) d m =
     (case try_step D M step d m of
        Inl e \<Rightarrow> (Inl e, [])
      | Inr (d', m', out) \<Rightarrow>
          (case len D d' of
             Inl e \<Rightarrow> (Inl e, out)
           | Inr a \<Rightarrow>
               (case len M m' of
                  Inl e \<Rightarrow> (Inl e, out)
                | Inr b \<Rightarrow>
                    if a \<noteq> b then (Inr False, out @ [LengthMismatch n (fst step) a b])
                    else (let (r, out') = run_steps D M (Suc n) steps d' m'
                          in (r, out @ out')))))"

text \<open>\<open>d0\<close> is the new atomic map and \<open>m0\<close> the new (empty) model.\<close>

definition scenario_random_ops ::
  "('d, 'k, 'v) dict_ops \<Rightarrow> ('m, 'k, 'v) dict_ops \<Rightarrow> 'd \<Rightarrow> 'm \<Rightarrow> (operation \<times> 'k \<times> 'v) list
     \<Rightarrow> (py_error + bool) \<times> random_ops_message list" where
  "scenario_random_ops D M d0 m0 steps = run_steps D M 0 steps d0 m0"

subsection \<open>Specification-side notions\<close>

text \<open>The two structures after the \<^verbatim>\<open>try\<close> statements of a list of steps, with no check.\<close>

fun after_steps ::
  "('d, 'k, 'v) dict_ops \<Rightarrow> ('m, 'k, 'v) dict_ops \<Rightarrow> (operation \<times> 'k \<times> 'v) list \<Rightarrow> 'd \<Rightarrow> 'm
     \<Rightarrow> py_error + ('d \<times> 'm)" where
  "after_steps D M [] d m = Inr (d, m)"
| "after_steps D M (step # steps) d m =
     (case try_step D M step d m of
        Inl e \<Rightarrow> Inl e
      | Inr (d', m', out) \<Rightarrow> after_steps D M steps d' m')"

definition lengths_agree ::
  "('d, 'k, 'v) dict_ops \<Rightarrow> ('m, 'k, 'v) dict_ops \<Rightarrow> 'd \<Rightarrow> 'm \<Rightarrow> py_error + bool" where
  "lengths_agree D M d m =
     (case len D d of
        Inl e \<Rightarrow> Inl e
      | Inr a \<Rightarrow> (case len M m of Inl e \<Rightarrow> Inl e | Inr b \<Rightarrow> Inr (a = b)))"

text \<open>Whether the lengths agree after step \<open>j\<close> (counted from 0) of the sequence.\<close>

definition agree_after ::
  "('d, 'k, 'v) dict_ops \<Rightarrow> ('m, 'k, 'v) dict_ops \<Rightarrow> 'd \<Rightarrow> 'm \<Rightarrow> (operation \<times> 'k \<times> 'v) list
     \<Rightarrow> nat \<Rightarrow> py_error + bool" where
  "agree_after D M d0 m0 steps j =
     (case after_steps D M (take (Suc j) steps) d0 m0 of
        Inl e \<Rightarrow> Inl e
      | Inr (d, m) \<Rightarrow> lengths_agree D M d m)"

text \<open>
  A dictionary over keys with stable hash and equality, as an association list: the
  standard dict on such keys, used as a concrete instance.
\<close>

definition alist_dict :: "(('k \<times> 'v) list, 'k, 'v) dict_ops" where
  "alist_dict =
     \<lparr>setitem = (\<lambda>key val s. (None, AList.update key val s)),
      getitem = (\<lambda>key s. (if map_of s key = None then Some KeyError else None, s)),
      delitem = (\<lambda>key s. if map_of s key = None then (Some KeyError, s)
                           else (None, AList.delete key s)),
      len = (\<lambda>s. Inr (int (length s)))\<rparr>"

text \<open>The same, except that deleting leaves the entry in place: a faulty subject.\<close>

definition leaky_dict :: "(('k \<times> 'v) list, 'k, 'v) dict_ops" where
  "leaky_dict = alist_dict\<lparr>delitem := (\<lambda>key s. (if map_of s key = None then Some KeyError else None, s))\<rparr>"


section \<open>Orchestration of the race scenarios\<close>

text \<open>
  Only the main thread of a scenario is modelled. Time is counted in milliseconds on a
  clock that starts when the worker threads have been started. What a worker does is
  external (it calls into the subject); its fate is when its target function returns, if
  ever. The calls into the subject that a scenario makes before it starts its threads are
  taken to return.

  A blocking call never returns before its nominal time, and may return any time later:
  the lateness of each call is a parameter. \<^verbatim>\<open>time.sleep(secs)\<close> raises \<^verbatim>\<open>ValueError\<close> for
  a negative argument and otherwise lasts at least \<open>secs\<close>. \<^verbatim>\<open>Thread.join(timeout)\<close> waits
  until the thread has terminated or, when a timeout is given, until the timeout has
  elapsed, whichever is first; without a timeout it does not return while the thread
  runs (the result \<open>None\<close>).
\<close>

type_synonym time = nat

datatype fate = ExitsAt time | NeverExits

definition sleep :: "int \<Rightarrow> time \<Rightarrow> time \<Rightarrow> py_error + time" where
  "sleep ms late now = (if ms < 0 then Inl ValueError else Inr (now + nat ms + late))"

definition join :: "time option \<Rightarrow> time \<Rightarrow> fate \<Rightarrow> time \<Rightarrow> time option" where
  "join timeout late f now =
     (case timeout of
        None \<Rightarrow> (case f of ExitsAt t \<Rightarrow> Some (max now t + late) | NeverExits \<Rightarrow> None)
      | Some d \<Rightarrow> (case f of ExitsAt t \<Rightarrow> Some (min (max now t) (now + d) + late)
                         | NeverExits \<Rightarrow> Some (now + d + late)))"

text \<open>\<^verbatim>\<open>t.is_alive()\<close> at a given time.\<close>

definition is_alive :: "fate \<Rightarrow> time \<Rightarrow> bool" where
  "is_alive f now = (case f of ExitsAt t \<Rightarrow> now < t | NeverExits \<Rightarrow> True)"

text \<open>
  \<^verbatim>\<open>for t in threads: t.join(timeout=...)\<close>, the joins being the blocking calls number
  \<open>k\<close>, \<open>k + 1\<close>, ... of the main thread; \<open>late k\<close> is the lateness of call \<open>k\<close>. The result
  is \<open>None\<close> when a join never returns.
\<close>

fun join_all :: "time option \<Rightarrow> (nat \<Rightarrow> time) \<Rightarrow> nat \<Rightarrow> fate list \<Rightarrow> time \<Rightarrow> time option" where
  "join_all timeout late k [] now = Some now"
| "join_all timeout late k (f # fs) now =
     (case join timeout (late k) f now of
        None \<Rightarrow> None
      | Some now' \<Rightarrow> join_all timeout late (Suc k) fs now')"

text \<open>
  What a scenario raises: an object raised as it is, or a \<^verbatim>\<open>RuntimeError\<close> with a message
  prefix, raised \<^verbatim>\<open>from\<close> a collected error. The result of a scenario is the time at which
  it returns or raises, with the value or the raised object; \<open>None\<close> when it does neither.
\<close>

datatype raised = Raised py_error | RuntimeError_from string py_error

type_synonym outcome = "(time \<times> (raised + bool)) option"

text \<open>
  \<^verbatim>\<open>fast_iter_vs_mutation_race\<close> (tricky\_concurrency\_hell.py, lines 176--244): start the
  threads, sleep, set the stop event, join each thread, return \<open>True\<close>.
\<close>

definition fast_iter_vs_mutation_race ::
  "int \<Rightarrow> int \<Rightarrow> int \<Rightarrow> (nat \<Rightarrow> time) \<Rightarrow> (nat \<Rightarrow> fate) \<Rightarrow> outcome" where
  "fast_iter_vs_mutation_race num_iter_threads num_chaos_threads duration_ms late fate_of =
     (let all_threads = map fate_of [0..<nat num_iter_threads + nat num_chaos_threads]
      in case sleep duration_ms (late 0) 0 of
           Inl e \<Rightarrow> Some (0, Inl (Raised e))
         | Inr stop_time \<Rightarrow>
             (case join_all None late 1 all_threads stop_time of
                None \<Rightarrow> None
              | Some now \<Rightarrow> Some (now, Inr True)))"

text \<open>
  \<^verbatim>\<open>high_frequency_cas_race\<close> and \<^verbatim>\<open>mutable_vs_container_race\<close> (tricky\_atomicref.py, lines
  136--171 and 177--222) and \<^verbatim>\<open>handle_vs_direct_ref_swap_race\<close> (tricky\_threadhandle.py,
  lines 235--281): start the threads, sleep, set the stop event, join each thread for at
  most one second, then raise a \<^verbatim>\<open>RuntimeError\<close> from the first collected error or return
  \<open>True\<close>. \<open>errors\<close> is the list the workers have filled when the main thread reads it.
\<close>

definition high_frequency_cas_race ::
  "int \<Rightarrow> int \<Rightarrow> (nat \<Rightarrow> time) \<Rightarrow> (nat \<Rightarrow> fate) \<Rightarrow> py_error list \<Rightarrow> outcome" where
  "high_frequency_cas_race num_threads duration_ms late fate_of errors =
     (let threads = map fate_of [0..<nat num_threads]
      in case sleep duration_ms (late 0) 0 of
           Inl e \<Rightarrow> Some (0, Inl (Raised e))
         | Inr stop_time \<Rightarrow>
             (case join_all (Some 1000) late 1 threads stop_time of
                None \<Rightarrow> None
              | Some now \<Rightarrow>
                  Some (now, case errors of
                               [] \<Rightarrow> Inr True
                             | e # es \<Rightarrow>
                                 Inl (RuntimeError_from ''Thread failed during CAS race: '' e))))"

definition mutable_vs_container_race ::
  "int \<Rightarrow> int \<Rightarrow> (nat \<Rightarrow> time) \<Rightarrow> (nat \<Rightarrow> fate) \<Rightarrow> py_error list \<Rightarrow> outcome" where
  "mutable_vs_container_race num_threads duration_ms late fate_of errors =
     (let threads = map fate_of [0..<nat num_threads]
      in case sleep duration_ms (late 0) 0 of
           Inl e \<Rightarrow> Some (0, Inl (Raised e))
         | Inr stop_time \<Rightarrow>
             (case join_all (Some 1000) late 1 threads stop_time of
                None \<Rightarrow> None
              | Some now \<Rightarrow>
                  Some (now, case errors of
                               [] \<Rightarrow> Inr True
                             | e # es \<Rightarrow>
                                 Inl (RuntimeError_from ''Thread failed during mutable race: '' e))))"

definition handle_vs_direct_ref_swap_race ::
  "int \<Rightarrow> int \<Rightarrow> (nat \<Rightarrow> time) \<Rightarrow> (nat \<Rightarrow> fate) \<Rightarrow> py_error list \<Rightarrow> outcome" where
  "handle_vs_direct_ref_swap_race num_threads duration_ms late fate_of errors =
     (let threads = map fate_of [0..<nat num_threads]
      in case sleep duration_ms (late 0) 0 of
           Inl e \<Rightarrow> Some (0, Inl (Raised e))
         | Inr stop_time \<Rightarrow>
             (case join_all (Some 1000) late 1 threads stop_time of
                None \<Rightarrow> None
              | Some now \<Rightarrow>
                  Some (now, case errors of
                               [] \<Rightarrow> Inr True
                             | e # es \<Rightarrow>
                                 Inl (RuntimeError_from
                                        ''Thread failed during direct vs handle race: '' e))))"

text \<open>
  \<^verbatim>\<open>race_condition_ref_vs_gc\<close> (tricky\_recursive\_cereggii.py, lines 123--176): join the
  collector for at most one second, sleep 10 ms, set the stop flag, join the hammer for at
  most one second, then raise the first collected error or return \<open>True\<close>. \<open>errors\<close> is
  the list the hammer thread has filled when the main thread reads it.
\<close>

definition race_condition_ref_vs_gc ::
  "fate \<Rightarrow> fate \<Rightarrow> (nat \<Rightarrow> time) \<Rightarrow> py_error list \<Rightarrow> outcome" where
  "race_condition_ref_vs_gc h_thread g_thread late errors =
     (case join (Some 1000) (late 0) g_thread 0 of
        None \<Rightarrow> None
      | Some t1 \<Rightarrow>
          (case sleep 10 (late 1) t1 of
             Inl e \<Rightarrow> Some (t1, Inl (Raised e))
           | Inr t2 \<Rightarrow>
               (case join (Some 1000) (late 2) h_thread t2 of
                  None \<Rightarrow> None
                | Some t3 \<Rightarrow>
                    Some (t3, case errors of [] \<Rightarrow> Inr True | e # es \<Rightarrow> Inl (Raised e)))))"

chapter \<open>Theorems\<close>

section \<open>Colliding key generator\<close>

lemma map_of_touch:
  "map_of (touch rs b) = (case map_of rs b of None \<Rightarrow> (map_of rs)(b \<mapsto> []) | Some ks \<Rightarrow> map_of rs)"
  by (auto simp: touch_def map_add_def fun_eq_iff split: option.splits)

lemma distinct_touch: "distinct (map fst rs) \<Longrightarrow> distinct (map fst (touch rs b))"
  by (auto simp: touch_def map_of_eq_None_iff split: option.splits)

lemma bucket_list_touch: "bucket_list (touch rs b) c = bucket_list rs c"
  by (auto simp: bucket_list_def map_of_touch split: option.splits)

lemma map_of_examine:
  "map_of (results (examine nb kpb st b i)) =
     (if b < nb
      then (map_of (results st))
             (b \<mapsto> (if int (length (bucket_list (results st) b)) < kpb
                     then bucket_list (results st) b @ [i]
                     else bucket_list (results st) b))
      else map_of (results st))"
  by (auto simp: examine_def Let_def bucket_list_touch update_conv' map_of_touch fun_eq_iff
        bucket_list_def split: option.splits)

lemma distinct_examine:
  "distinct (map fst (results st)) \<Longrightarrow> distinct (map fst (results (examine nb kpb st b i)))"
  by (auto simp: examine_def Let_def distinct_touch distinct_update)

lemma filled_examine:
  "filled_buckets (examine nb kpb st b i) =
     (if b < nb \<and> int (length (bucket_list (results st) b)) < kpb
      then insert b (filled_buckets st) else filled_buckets st)"
  by (auto simp: examine_def Let_def bucket_list_touch)

lemma distinct_examined:
  "distinct (map fst (results (examined rehash log_size nb kpb n)))"
  by (induction n) (simp_all add: init_state_def distinct_examine)

lemma bucket_keys_Suc_other:
  "bucket_of rehash log_size (int n) \<noteq> b \<Longrightarrow>
   bucket_keys rehash log_size kpb (Suc n) b = bucket_keys rehash log_size kpb n b"
  by (simp add: bucket_keys_def)

lemma bucket_keys_Suc_same:
  "bucket_of rehash log_size (int n) = b \<Longrightarrow>
   bucket_keys rehash log_size kpb (Suc n) b =
     (if int (length (bucket_keys rehash log_size kpb n b)) < kpb
      then bucket_keys rehash log_size kpb n b @ [int n]
      else bucket_keys rehash log_size kpb n b)"
  by (auto simp: bucket_keys_def min_def)

lemma bucket_keys_untouched:
  "\<not> (\<exists>k<n. bucket_of rehash log_size (int k) = b) \<Longrightarrow> bucket_keys rehash log_size kpb n b = []"
  by (auto simp: bucket_keys_def filter_empty_conv)

lemma map_of_examined:
  "map_of (results (examined rehash log_size nb kpb n)) b =
     (if b < nb \<and> (\<exists>k<n. bucket_of rehash log_size (int k) = b)
      then Some (bucket_keys rehash log_size kpb n b) else None)"
proof (induction n arbitrary: b)
  case 0
  show ?case by (simp add: init_state_def)
next
  case (Suc n)
  let ?B = "bucket_of rehash log_size (int n)"
  let ?st = "examined rehash log_size nb kpb n"
  have bl: "bucket_list (results ?st) ?B = bucket_keys rehash log_size kpb n ?B" if "?B < nb"
    using that Suc[of ?B] bucket_keys_untouched[of n rehash log_size ?B kpb]
    by (auto simp: bucket_list_def split: if_splits)
  show ?case
  proof (cases "b = ?B")
    case True
    show ?thesis
    proof (cases "?B < nb")
      case lt: True
      have "\<exists>k<Suc n. bucket_of rehash log_size (int k) = b" using True by blast
      then show ?thesis using True lt bl
        by (simp add: map_of_examine bucket_keys_Suc_same del: ex_simps)
    next
      case False
      then show ?thesis using True Suc[of b] by (simp add: map_of_examine)
    qed
  next
    case False
    have "(\<exists>k<Suc n. bucket_of rehash log_size (int k) = b) = (\<exists>k<n. bucket_of rehash log_size (int k) = b)"
      using False less_Suc_eq by auto
    then show ?thesis using False Suc[of b]
      by (simp add: map_of_examine bucket_keys_Suc_other del: ex_simps)
  qed
qed

lemma bucket_of_nonneg: "0 \<le> bucket_of rehash log_size i"
  by (simp add: bucket_of_def)

lemma py_rshift_bucket:
  "log_size \<le> 64 \<Longrightarrow> py_rshift (uint (rehash i)) (64 - log_size) = Inr (bucket_of rehash log_size i)"
  by (simp add: py_rshift_def bucket_of_def)

lemma py_rshift_error:
  "64 < log_size \<Longrightarrow> py_rshift x (64 - log_size) = Inl ValueError"
  by (simp add: py_rshift_def)

lemma ex_less_Suc: "(\<exists>k<Suc n. f k = b) = ((\<exists>k<n. f k = b) \<or> f n = b)"
  by (auto simp: less_Suc_eq)

lemma bucket_keys_nonempty:
  assumes "0 < kpb" "k < n" "bucket_of rehash log_size (int k) = b"
  shows "bucket_keys rehash log_size kpb n b \<noteq> []"
proof -
  have "int k \<in> set (filter (\<lambda>j. bucket_of rehash log_size j = b) (map int [0..<n]))"
    using assms(2,3) by simp
  then have "filter (\<lambda>j. bucket_of rehash log_size j = b) (map int [0..<n]) \<noteq> []"
    by (metis empty_iff list.set(1))
  then show ?thesis using assms(1) by (simp add: bucket_keys_def)
qed

lemma bucket_list_examined:
  "bucket_list (results (examined rehash log_size nb kpb n)) b =
     (if b < nb then bucket_keys rehash log_size kpb n b else [])"
proof (cases "\<exists>k<n. bucket_of rehash log_size (int k) = b")
  case True
  then show ?thesis by (simp add: bucket_list_def map_of_examined del: ex_simps)
next
  case False
  then have "bucket_keys rehash log_size kpb n b = []" by (rule bucket_keys_untouched)
  then show ?thesis using False by (simp add: bucket_list_def map_of_examined del: ex_simps)
qed

lemma filled_examined:
  "filled_buckets (examined rehash log_size nb kpb n) =
     {b. b < nb \<and> 0 < kpb \<and> (\<exists>k<n. bucket_of rehash log_size (int k) = b)}"
proof (induction n)
  case 0
  show ?case by (simp add: init_state_def)
next
  case (Suc n)
  let ?B = "bucket_of rehash log_size (int n)"
  let ?st = "examined rehash log_size nb kpb n"
  let ?S = "\<lambda>n. {b. b < nb \<and> 0 < kpb \<and> (\<exists>k<n. bucket_of rehash log_size (int k) = b)}"
  show ?case
  proof (cases "?B < nb \<and> int (length (bucket_list (results ?st) ?B)) < kpb")
    case True
    then have "0 < kpb" "?B < nb" by linarith+
    then have "?S (Suc n) = insert ?B (?S n)"
      unfolding ex_less_Suc by blast
    moreover have "filled_buckets (examined rehash log_size nb kpb (Suc n)) = insert ?B (filled_buckets ?st)"
      using True by (simp add: filled_examine)
    ultimately show ?thesis using Suc by simp
  next
    case False
    have "?S (Suc n) = ?S n"
    proof (cases "?B < nb \<and> 0 < kpb")
      case True
      with False have "bucket_list (results ?st) ?B \<noteq> []" by auto
      then have "\<exists>k<n. bucket_of rehash log_size (int k) = ?B"
        using bucket_keys_untouched[of n rehash log_size ?B kpb]
        by (auto simp: bucket_list_examined split: if_splits)
      then show ?thesis unfolding ex_less_Suc by blast
    next
      case False
      then show ?thesis unfolding ex_less_Suc by blast
    qed
    moreover have "filled_buckets (examined rehash log_size nb kpb (Suc n)) = filled_buckets ?st"
      using False by (auto simp: filled_examine)
    ultimately show ?thesis using Suc by simp
  qed
qed

lemma search_candidates_total:
  "log_size \<le> 64 \<Longrightarrow> \<exists>st' broke. search_candidates rehash log_size nb kpb limit i st = Inr (st', broke)"
proof (induction rehash log_size nb kpb limit i st rule: search_candidates.induct)
  case (1 rehash log_size nb kpb limit i st)
  show ?case
  proof (cases "i < limit")
    case False
    then have "search_candidates rehash log_size nb kpb limit i st = Inr (st, False)"
      by (subst search_candidates.simps) simp
    then show ?thesis by blast
  next
    case True
    let ?st' = "examine nb kpb st (bucket_of rehash log_size (int i)) (int i)"
    show ?thesis
    proof (cases "stop_now nb kpb ?st'")
      case stop: True
      then have "search_candidates rehash log_size nb kpb limit i st = Inr (?st', True)"
        using True "1.prems"
        by (subst search_candidates.simps) (simp add: py_rshift_bucket)
      then show ?thesis by blast
    next
      case go: False
      have "\<exists>st' broke. search_candidates rehash log_size nb kpb limit (Suc i) ?st' = Inr (st', broke)"
        using "1.IH"[OF True py_rshift_bucket[OF "1.prems"] refl go "1.prems"] .
      moreover have "search_candidates rehash log_size nb kpb limit i st
          = search_candidates rehash log_size nb kpb limit (Suc i) ?st'"
        using True go "1.prems"
        by (subst search_candidates.simps) (simp add: py_rshift_bucket)
      ultimately show ?thesis by simp
    qed
  qed
qed

lemma search_candidates_examined:
  assumes "log_size \<le> 64"
  shows "st = examined rehash log_size nb kpb i \<Longrightarrow> i \<le> limit \<Longrightarrow>
     search_candidates rehash log_size nb kpb limit i st = Inr (st', broke) \<Longrightarrow>
     \<exists>n. i \<le> n \<and> n \<le> limit \<and> st' = examined rehash log_size nb kpb n
        \<and> (\<forall>m. i < m \<and> m < n \<longrightarrow> \<not> stop_now nb kpb (examined rehash log_size nb kpb m))
        \<and> (broke \<longleftrightarrow> i < n \<and> stop_now nb kpb (examined rehash log_size nb kpb n))
        \<and> (\<not> broke \<longrightarrow> n = limit)"
  using assms
proof (induction rehash log_size nb kpb limit i st rule: search_candidates.induct)
  case (1 rehash log_size nb kpb limit i st)
  note ls = \<open>log_size \<le> 64\<close>
  let ?E = "examined rehash log_size nb kpb"
  show ?case
  proof (cases "i < limit")
    case False
    then have "search_candidates rehash log_size nb kpb limit i st = Inr (st, False)"
      by (subst search_candidates.simps) simp
    with "1.prems"(3) have "st' = st" "\<not> broke" by simp_all
    moreover have "i = limit" using False "1.prems"(2) by simp
    ultimately show ?thesis using "1.prems"(1) by (intro exI[of _ i]) auto
  next
    case True
    let ?st1 = "examine nb kpb st (bucket_of rehash log_size (int i)) (int i)"
    have st1: "?st1 = ?E (Suc i)"
      by (simp only: "1.prems"(1) examined.simps)
    show ?thesis
    proof (cases "stop_now nb kpb ?st1")
      case stop: True
      have "search_candidates rehash log_size nb kpb limit i st = Inr (?st1, True)"
        using True stop ls by (subst search_candidates.simps) (simp add: py_rshift_bucket)
      with "1.prems"(3) have "st' = ?st1" "broke" by simp_all
      then have "st' = ?E (Suc i)" "broke" "stop_now nb kpb (?E (Suc i))"
        using st1 stop by simp_all
      moreover have "\<forall>m. i < m \<and> m < Suc i \<longrightarrow> \<not> stop_now nb kpb (?E m)" by auto
      moreover have "Suc i \<le> limit" using True by simp
      ultimately show ?thesis by (intro exI[of _ "Suc i"]) simp
    next
      case go: False
      have eq: "search_candidates rehash log_size nb kpb limit i st
           = search_candidates rehash log_size nb kpb limit (Suc i) ?st1"
        using True go ls by (subst search_candidates.simps) (simp add: py_rshift_bucket)
      have r: "search_candidates rehash log_size nb kpb limit (Suc i) ?st1 = Inr (st', broke)"
        using eq "1.prems"(3) by simp
      have si: "Suc i \<le> limit" using True by simp
      have "\<exists>n. Suc i \<le> n \<and> n \<le> limit \<and> st' = ?E n
        \<and> (\<forall>m. Suc i < m \<and> m < n \<longrightarrow> \<not> stop_now nb kpb (?E m))
        \<and> (broke \<longleftrightarrow> Suc i < n \<and> stop_now nb kpb (?E n))
        \<and> (\<not> broke \<longrightarrow> n = limit)"
        by (rule "1.IH"[OF True py_rshift_bucket[OF ls] refl go st1 si r ls])
      then obtain n where n: "Suc i \<le> n" "n \<le> limit" "st' = ?E n"
        "\<forall>m. Suc i < m \<and> m < n \<longrightarrow> \<not> stop_now nb kpb (?E m)"
        "broke \<longleftrightarrow> Suc i < n \<and> stop_now nb kpb (?E n)"
        "\<not> broke \<longrightarrow> n = limit" by blast
      have go': "\<not> stop_now nb kpb (?E (Suc i))" using go st1 by simp
      have a: "\<forall>m. i < m \<and> m < n \<longrightarrow> \<not> stop_now nb kpb (?E m)"
      proof (intro allI impI)
        fix m assume "i < m \<and> m < n"
        then consider "m = Suc i" | "Suc i < m \<and> m < n" by linarith
        then show "\<not> stop_now nb kpb (?E m)"
          using go' n(4) by cases blast+
      qed
      have b: "broke \<longleftrightarrow> i < n \<and> stop_now nb kpb (?E n)"
      proof (cases "n = Suc i")
        case True
        then show ?thesis using n(5) go' by blast
      next
        case False
        then have "Suc i < n" using n(1) by linarith
        then show ?thesis using n(5) by auto
      qed
      have "i \<le> n" using n(1) by simp
      then show ?thesis using n(2,3,6) a b by (intro exI[of _ n]) blast
    qed
  qed
qed

lemma all_full_iff:
  "all_full nb kpb rs \<longleftrightarrow> (\<forall>(k, v) \<in> set rs. k < nb \<longrightarrow> kpb \<le> int (length v))"
  by (auto simp: all_full_def list_all_iff)

lemma in_results_examined:
  "(b, ks) \<in> set (results (examined rehash log_size nb kpb n)) \<longleftrightarrow>
     b < nb \<and> (\<exists>k<n. bucket_of rehash log_size (int k) = b)
       \<and> ks = bucket_keys rehash log_size kpb n b"
proof -
  have "(b, ks) \<in> set (results (examined rehash log_size nb kpb n)) \<longleftrightarrow>
      map_of (results (examined rehash log_size nb kpb n)) b = Some ks"
    using distinct_examined[of rehash log_size nb kpb n] by simp
  then show ?thesis by (auto simp: map_of_examined simp del: ex_simps)
qed

lemma touched_subset:
  "{b. b < nb \<and> (\<exists>k<n. bucket_of rehash log_size (int k) = b)} \<subseteq> {0..<nb}"
  using bucket_of_nonneg by auto

lemma stop_now_iff_quota:
  assumes "1 \<le> kpb"
  shows "stop_now nb kpb (examined rehash log_size nb kpb n)
     \<longleftrightarrow> quota_reached nb kpb (results (examined rehash log_size nb kpb n))"
proof -
  let ?E = "examined rehash log_size nb kpb n"
  let ?T = "{b. b < nb \<and> (\<exists>k<n. bucket_of rehash log_size (int k) = b)}"
  have F: "filled_buckets ?E = ?T" using assms by (simp add: filled_examined del: ex_simps)
  have sub: "?T \<subseteq> {0..<nb}" by (rule touched_subset)
  have fin: "finite ?T" using sub finite_atLeastLessThan_int finite_subset by blast
  show ?thesis
  proof
    assume s: "stop_now nb kpb ?E"
    then have c: "nb \<le> int (card ?T)" and af: "all_full nb kpb (results ?E)"
      using F by (simp_all add: stop_now_def)
    have "card {0..<nb} \<le> card ?T" using c by simp
    then have T: "?T = {0..<nb}" using sub by (simp add: card_seteq)
    show "quota_reached nb kpb (results ?E)"
      unfolding quota_reached_def
    proof (intro allI impI)
      fix b assume b: "0 \<le> b \<and> b < nb"
      then have "b \<in> ?T" using T by simp
      then have "(b, bucket_keys rehash log_size kpb n b) \<in> set (results ?E)"
        by (simp add: in_results_examined del: ex_simps)
      then have "kpb \<le> int (length (bucket_keys rehash log_size kpb n b))"
        using af b unfolding all_full_iff by blast
      then show "kpb \<le> int (length (bucket_list (results ?E) b))"
        using b by (simp add: bucket_list_examined)
    qed
  next
    assume q: "quota_reached nb kpb (results ?E)"
    have "{0..<nb} \<subseteq> ?T"
    proof
      fix b assume "b \<in> {0..<nb}"
      then have b: "0 \<le> b \<and> b < nb" by simp
      then have "kpb \<le> int (length (bucket_list (results ?E) b))"
        using q unfolding quota_reached_def by blast
      then have "bucket_keys rehash log_size kpb n b \<noteq> []"
        using assms b by (auto simp: bucket_list_examined)
      then have "\<exists>k<n. bucket_of rehash log_size (int k) = b"
        using bucket_keys_untouched[of n rehash log_size b kpb] by blast
      then show "b \<in> ?T" using b by simp
    qed
    then have "card {0..<nb} \<le> card ?T" using fin by (rule card_mono[rotated])
    then have c: "nb \<le> int (card ?T)" by simp
    have af: "all_full nb kpb (results ?E)"
      unfolding all_full_iff
    proof (intro ballI, clarify)
      fix k v assume kv: "(k, v) \<in> set (results ?E)" and "k < nb"
      then have v: "v = bucket_keys rehash log_size kpb n k" and "k \<in> ?T"
        by (simp_all add: in_results_examined del: ex_simps)
      then have "0 \<le> k \<and> k < nb" using sub by auto
      then have "kpb \<le> int (length (bucket_list (results ?E) k))"
        using q unfolding quota_reached_def by blast
      then show "kpb \<le> int (length v)" using v \<open>k < nb\<close> by (simp add: bucket_list_examined)
    qed
    show "stop_now nb kpb ?E" using c af F by (simp add: stop_now_def)
  qed
qed

lemma bucket_keys_props:
  "sorted_wrt (<) (bucket_keys rehash log_size kpb n b)"
  "length (bucket_keys rehash log_size kpb n b) \<le> nat kpb"
  "k \<in> set (bucket_keys rehash log_size kpb n b) \<Longrightarrow>
      0 \<le> k \<and> k < int n \<and> bucket_of rehash log_size k = b"
proof -
  let ?F = "filter (\<lambda>k. bucket_of rehash log_size k = b) (map int [0..<n])"
  have "sorted_wrt (<) (map int [0..<n])"
    by (simp add: sorted_wrt_map sorted_wrt_upt)
  then have "sorted_wrt (<) ?F" by (rule sorted_wrt_filter)
  then show "sorted_wrt (<) (bucket_keys rehash log_size kpb n b)"
    unfolding bucket_keys_def by (rule sorted_wrt_take)
  show "length (bucket_keys rehash log_size kpb n b) \<le> nat kpb"
    by (simp add: bucket_keys_def)
  assume "k \<in> set (bucket_keys rehash log_size kpb n b)"
  then have "k \<in> set ?F" unfolding bucket_keys_def by (rule in_set_takeD)
  then show "0 \<le> k \<and> k < int n \<and> bucket_of rehash log_size k = b" by auto
qed

lemma search_candidates_cong:
  "(\<And>j. i \<le> j \<Longrightarrow> j < limit \<Longrightarrow> r1 (int j) = r2 (int j)) \<Longrightarrow>
   search_candidates r1 log_size nb kpb limit i st = search_candidates r2 log_size nb kpb limit i st"
proof (induction r1 log_size nb kpb limit i st rule: search_candidates.induct)
  case (1 r1 log_size nb kpb limit i st)
  show ?case
  proof (cases "i < limit")
    case False
    then show ?thesis
      by (simp add: search_candidates.simps[of r1] search_candidates.simps[of r2])
  next
    case True
    then have h: "r1 (int i) = r2 (int i)" using "1.prems" by simp
    show ?thesis
    proof (cases "py_rshift (uint (r1 (int i))) (64 - log_size)")
      case (Inl e)
      then show ?thesis using True h
        by (simp add: search_candidates.simps[of r1 _ _ _ _ i] search_candidates.simps[of r2 _ _ _ _ i])
    next
      case (Inr bucket)
      let ?st' = "examine nb kpb st bucket (int i)"
      show ?thesis
      proof (cases "stop_now nb kpb ?st'")
        case stop: True
        then show ?thesis using True h Inr
          by (simp add: search_candidates.simps[of r1 _ _ _ _ i] search_candidates.simps[of r2 _ _ _ _ i])
      next
        case go: False
        have "search_candidates r1 log_size nb kpb limit (Suc i) ?st'
            = search_candidates r2 log_size nb kpb limit (Suc i) ?st'"
          using "1.IH"[OF True Inr refl go] "1.prems" by simp
        then show ?thesis using True h Inr go
          by (simp add: search_candidates.simps[of r1 _ _ _ _ i] search_candidates.simps[of r2 _ _ _ _ i])
      qed
    qed
  qed
qed

lemma search_candidates_error:
  "64 < log_size \<Longrightarrow> i < limit \<Longrightarrow>
   search_candidates rehash log_size nb kpb limit i st = Inl ValueError"
  by (subst search_candidates.simps) (simp add: py_rshift_error)

lemma SEARCH_CEILING_pos: "0 < SEARCH_CEILING"
  by (simp add: SEARCH_CEILING_def)

lemma generate_colliding_keys_Some:
  "generate_colliding_keys (Some rehash) log_size nb kpb =
     (case search_candidates rehash log_size nb kpb SEARCH_CEILING 0 init_state of
        Inl e \<Rightarrow> Inl e
      | Inr (st, broke) \<Rightarrow>
          Inr (results st,
               Generating log_size # (if broke then [] else [ExhaustedWarning log_size])))"
  by (simp add: generate_colliding_keys_def generate_colliding_keys_upto_def)

lemma generate_colliding_keys_total:
  assumes "log_size \<le> 64"
  shows "\<exists>res msgs. generate_colliding_keys (Some rehash) log_size nb kpb = Inr (res, msgs)"
proof -
  obtain st' broke where
    "search_candidates rehash log_size nb kpb SEARCH_CEILING 0 init_state = Inr (st', broke)"
    using search_candidates_total[OF assms] by blast
  then show ?thesis
    by (simp add: generate_colliding_keys_Some)
qed

lemma generate_colliding_keys_Inr:
  assumes "generate_colliding_keys (Some rehash) log_size nb kpb = Inr (res, msgs)"
  shows "log_size \<le> 64 \<and> (\<exists>n broke. 0 < n \<and> n \<le> SEARCH_CEILING
        \<and> res = results (examined rehash log_size nb kpb n)
        \<and> msgs = Generating log_size # (if broke then [] else [ExhaustedWarning log_size])
        \<and> (\<forall>m. 0 < m \<and> m < n \<longrightarrow> \<not> stop_now nb kpb (examined rehash log_size nb kpb m))
        \<and> (broke \<longleftrightarrow> stop_now nb kpb (examined rehash log_size nb kpb n))
        \<and> (\<not> broke \<longrightarrow> n = SEARCH_CEILING))"
proof -
  let ?E = "examined rehash log_size nb kpb"
  have ls: "log_size \<le> 64"
  proof (rule ccontr)
    assume "\<not> log_size \<le> 64"
    then have "64 < log_size" by simp
    then have "search_candidates rehash log_size nb kpb SEARCH_CEILING 0 init_state = Inl ValueError"
      using SEARCH_CEILING_pos by (rule search_candidates_error)
    then show False using assms
      by (simp add: generate_colliding_keys_Some)
  qed
  obtain st' broke where
    r: "search_candidates rehash log_size nb kpb SEARCH_CEILING 0 init_state = Inr (st', broke)"
    using search_candidates_total[OF ls] by blast
  have res: "res = results st'"
    and msgs: "msgs = Generating log_size # (if broke then [] else [ExhaustedWarning log_size])"
    using assms r by (simp_all add: generate_colliding_keys_Some)
  have i0: "init_state = ?E 0" by (simp only: examined.simps)
  have le: "0 \<le> SEARCH_CEILING" by simp
  have "\<exists>n. 0 \<le> n \<and> n \<le> SEARCH_CEILING \<and> st' = ?E n
        \<and> (\<forall>m. 0 < m \<and> m < n \<longrightarrow> \<not> stop_now nb kpb (?E m))
        \<and> (broke \<longleftrightarrow> 0 < n \<and> stop_now nb kpb (?E n))
        \<and> (\<not> broke \<longrightarrow> n = SEARCH_CEILING)"
    by (rule search_candidates_examined[OF ls i0 le r])
  then obtain n where n: "n \<le> SEARCH_CEILING" "st' = ?E n"
    "\<forall>m. 0 < m \<and> m < n \<longrightarrow> \<not> stop_now nb kpb (?E m)"
    "broke \<longleftrightarrow> 0 < n \<and> stop_now nb kpb (?E n)"
    "\<not> broke \<longrightarrow> n = SEARCH_CEILING" by blast
  have pos: "0 < n"
  proof (cases broke)
    case True
    then show ?thesis using n(4) by blast
  next
    case False
    then show ?thesis using n(5) SEARCH_CEILING_pos by simp
  qed
  have b: "broke \<longleftrightarrow> stop_now nb kpb (?E n)" using n(4) pos by blast
  have "res = results (?E n)" using res n(2) by (simp only:)
  then have "0 < n \<and> n \<le> SEARCH_CEILING
        \<and> res = results (?E n)
        \<and> msgs = Generating log_size # (if broke then [] else [ExhaustedWarning log_size])
        \<and> (\<forall>m. 0 < m \<and> m < n \<longrightarrow> \<not> stop_now nb kpb (?E m))
        \<and> (broke \<longleftrightarrow> stop_now nb kpb (?E n))
        \<and> (\<not> broke \<longrightarrow> n = SEARCH_CEILING)"
    using pos n(1,3,5) msgs b by blast
  then show ?thesis using ls by blast
qed

lemma eval_small:
  "generate_colliding_keys (Some (\<lambda>_. 0)) 6 1 1 = Inr ([(0, [0])], [Generating 6])"
  unfolding generate_colliding_keys_Some
  by (subst search_candidates.simps)
     (simp add: py_rshift_def examine_def touch_def bucket_list_def stop_now_def all_full_def
        init_state_def SEARCH_CEILING_def Let_def)


lemma has_populated_bucket_iff:
  "has_populated_bucket rs \<longleftrightarrow> (\<exists>(bucket, keys) \<in> set rs. keys \<noteq> [])"
  by (simp add: has_populated_bucket_def list_ex_iff)

text \<open>
  Claim C1 (as amended). Whenever \<^verbatim>\<open>generate_colliding_keys\<close> returns a mapping, every key
  \<open>k\<close> listed under a bucket satisfies \<^verbatim>\<open>rehash(k) >> (64 - log_size) == bucket\<close>, for every
  \<open>log_size\<close>. For \<open>log_size = 6\<close>, 16 buckets and 32 keys per bucket the result has a
  populated bucket provided the subject's map type is available and its rehash sends some
  candidate below the ceiling to a bucket below 16.
\<close>

theorem colliding_keys_bucket_invariant:
  "(generate_colliding_keys dummy_dict log_size nb kpb = Inr (res, msgs) \<longrightarrow>
      (\<forall>(bucket, keys) \<in> set res. \<forall>k \<in> set keys.
          \<exists>rehash'. dummy_dict = Some rehash'
              \<and> py_rshift (uint (rehash' k)) (64 - log_size) = Inr bucket))
   \<and> ((\<exists>i<SEARCH_CEILING. drop_bit 58 (uint (rehash (int i))) < 16) \<longrightarrow>
        (\<exists>res' msgs'. generate_colliding_keys (Some rehash) 6 16 32 = Inr (res', msgs')
            \<and> has_populated_bucket res'))"
proof (intro conjI impI)
  assume r: "generate_colliding_keys dummy_dict log_size nb kpb = Inr (res, msgs)"
  show "\<forall>(bucket, keys) \<in> set res. \<forall>k \<in> set keys.
          \<exists>rehash'. dummy_dict = Some rehash'
              \<and> py_rshift (uint (rehash' k)) (64 - log_size) = Inr bucket"
  proof (cases dummy_dict)
    case None
    then have "res = []" using r
      by (simp add: generate_colliding_keys_def generate_colliding_keys_upto_def)
    then show ?thesis by simp
  next
    case (Some rh)
    from generate_colliding_keys_Inr[OF r[unfolded Some]]
    obtain n where ls: "log_size \<le> 64" and res: "res = results (examined rh log_size nb kpb n)"
      by blast
    show ?thesis
    proof (intro ballI, clarify)
      fix bucket keys k
      assume "(bucket, keys) \<in> set res" "k \<in> set keys"
      then have "k \<in> set (bucket_keys rh log_size kpb n bucket)"
        unfolding res in_results_examined by blast
      then have "bucket_of rh log_size k = bucket" by (rule bucket_keys_props(3)[THEN conjunct2, THEN conjunct2])
      then have "py_rshift (uint (rh k)) (64 - log_size) = Inr bucket"
        using py_rshift_bucket[OF ls, of rh k] by simp
      then show "\<exists>rehash'. dummy_dict = Some rehash'
              \<and> py_rshift (uint (rehash' k)) (64 - log_size) = Inr bucket"
        using Some by blast
    qed
  qed
next
  assume "\<exists>i<SEARCH_CEILING. drop_bit 58 (uint (rehash (int i))) < 16"
  then obtain i where i: "i < SEARCH_CEILING" "bucket_of rehash 6 (int i) < 16"
    by (auto simp: bucket_of_def)
  obtain res' msgs' where r: "generate_colliding_keys (Some rehash) 6 16 32 = Inr (res', msgs')"
    using generate_colliding_keys_total[of 6 rehash 16 32] by auto
  let ?E = "examined rehash 6 16 32"
  from generate_colliding_keys_Inr[OF r]
  obtain n broke where n: "0 < n" "res' = results (?E n)"
    "broke \<longleftrightarrow> stop_now 16 32 (?E n)" "\<not> broke \<longrightarrow> n = SEARCH_CEILING"
    by blast
  have "\<exists>b ks. (b, ks) \<in> set res' \<and> ks \<noteq> []"
  proof (cases broke)
    case True
    then have "quota_reached 16 32 (results (?E n))"
      using n(3) stop_now_iff_quota[of 32 16 rehash 6 n] by simp
    then have "32 \<le> int (length (bucket_list (results (?E n)) 0))"
      unfolding quota_reached_def by simp
    then have ne: "bucket_keys rehash 6 32 n 0 \<noteq> []"
      by (auto simp: bucket_list_examined)
    then have "\<exists>k<n. bucket_of rehash 6 (int k) = 0"
      using bucket_keys_untouched[of n rehash 6 0 32] by blast
    then have "(0, bucket_keys rehash 6 32 n 0) \<in> set res'"
      unfolding n(2) in_results_examined by simp
    then show ?thesis using ne by blast
  next
    case False
    then have "i < n" using n(4) i(1) by simp
    then have "bucket_keys rehash 6 32 n (bucket_of rehash 6 (int i)) \<noteq> []"
      by (intro bucket_keys_nonempty[of 32 i n]) simp_all
    moreover have "(bucket_of rehash 6 (int i), bucket_keys rehash 6 32 n (bucket_of rehash 6 (int i)))
        \<in> set res'"
      unfolding n(2) in_results_examined using i(2) \<open>i < n\<close> by blast
    ultimately show ?thesis by blast
  qed
  then have "has_populated_bucket res'" unfolding has_populated_bucket_iff by blast
  then show "\<exists>res' msgs'. generate_colliding_keys (Some rehash) 6 16 32 = Inr (res', msgs')
            \<and> has_populated_bucket res'"
    using r by blast
qed

theorem colliding_keys_bucket_invariant_witness:
  "generate_colliding_keys (Some (\<lambda>_. 0)) 6 1 1 = Inr ([(0, [0])], [Generating 6])
   \<and> (\<exists>rehash'. Some (\<lambda>_. 0 :: 64 word) = Some rehash'
              \<and> py_rshift (uint (rehash' (0 :: int))) (64 - 6) = Inr 0)
   \<and> (\<exists>i<SEARCH_CEILING. drop_bit 58 (uint ((\<lambda>_. 0 :: 64 word) (int i))) < 16)
   \<and> (\<exists>res' msgs'. generate_colliding_keys (Some (\<lambda>_. 0)) 6 16 32 = Inr (res', msgs')
            \<and> has_populated_bucket res')"
proof -
  have e: "generate_colliding_keys (Some (\<lambda>_. 0)) 6 1 1 = Inr ([(0, [0])], [Generating 6])"
    by (rule eval_small)
  have h: "\<exists>i<SEARCH_CEILING. drop_bit 58 (uint ((\<lambda>_. 0 :: 64 word) (int i))) < 16"
    using SEARCH_CEILING_pos by auto
  have a: "\<forall>(bucket, keys) \<in> set [(0, [0 :: int])]. \<forall>k \<in> set keys.
          \<exists>rehash'. Some (\<lambda>_. 0 :: 64 word) = Some rehash'
              \<and> py_rshift (uint (rehash' k)) (64 - 6) = Inr bucket"
    by (rule colliding_keys_bucket_invariant[of "Some (\<lambda>_. 0)" 6 1 1 "[(0, [0])]" "[Generating 6]",
          THEN conjunct1, THEN mp, OF e])
  have b: "\<exists>res' msgs'. generate_colliding_keys (Some (\<lambda>_. 0)) 6 16 32 = Inr (res', msgs')
            \<and> has_populated_bucket res'"
    by (rule colliding_keys_bucket_invariant[of "Some (\<lambda>_. 0)" 6 1 1 "[(0, [0])]" "[Generating 6]" "\<lambda>_. 0",
          THEN conjunct2, THEN mp, OF h])
  have a': "\<exists>rehash'. Some (\<lambda>_. 0 :: 64 word) = Some rehash'
              \<and> py_rshift (uint (rehash' (0 :: int))) (64 - 6) = Inr 0"
    using a by simp
  show ?thesis using e a' h b by blast
qed

lemma no_low_bucket_run:
  "generate_colliding_keys (Some (\<lambda>_. - 1)) 6 16 32 = Inr ([], [Generating 6, ExhaustedWarning 6])"
proof -
  let ?r = "\<lambda>_ :: int. - 1 :: 64 word"
  have b: "bucket_of ?r 6 i = 63" for i
    by (simp add: bucket_of_def drop_bit_eq_div unsigned_minus_1_eq_mask mask_eq_exp_minus_1)
  obtain res msgs where r: "generate_colliding_keys (Some ?r) 6 16 32 = Inr (res, msgs)"
    using generate_colliding_keys_total[of 6 ?r 16 32] by auto
  from generate_colliding_keys_Inr[OF r]
  obtain n broke where n: "0 < n" "res = results (examined ?r 6 16 32 n)"
    "msgs = Generating 6 # (if broke then [] else [ExhaustedWarning 6])"
    "broke \<longleftrightarrow> stop_now 16 32 (examined ?r 6 16 32 n)"
    by blast
  have "(c, ks) \<notin> set res" for c ks
  proof
    assume "(c, ks) \<in> set res"
    then have "c < 16" "\<exists>k<n. bucket_of ?r 6 (int k) = c"
      unfolding n(2) in_results_examined by blast+
    then show False using b by auto
  qed
  then have res: "res = []" by (cases res) auto
  have "filled_buckets (examined ?r 6 16 32 n) = {}"
    unfolding filled_examined using b by auto
  then have "\<not> broke" using n(4) by (simp add: stop_now_def)
  then show ?thesis using r res n(3) by simp
qed

text \<open>
  Claim C1 as stated fails: with the subject's map type unavailable the function returns the
  empty mapping, and so it does (after the warning) when no candidate below the ceiling
  falls into a bucket below 16.
\<close>

theorem colliding_keys_populated_counterexample:
  "generate_colliding_keys None 6 16 32 = Inr ([], [])
   \<and> generate_colliding_keys (Some (\<lambda>_. - 1)) 6 16 32
       = Inr ([], [Generating 6, ExhaustedWarning 6])
   \<and> \<not> has_populated_bucket []"
  using no_low_bucket_run
  by (simp add: generate_colliding_keys_def generate_colliding_keys_upto_def
      has_populated_bucket_def)







text \<open>
  Claim C8. Two runs with the same parameters and the same search ceiling, whose
  hash-to-bucket functions agree on every candidate below the ceiling (in particular: are
  the same function), return the same value: the same mapping and the same messages, or
  the same error. \<^verbatim>\<open>generate_colliding_keys\<close> is the instance \<open>limit = SEARCH_CEILING\<close>.
\<close>

theorem generate_colliding_keys_deterministic:
  assumes "\<forall>i<limit. r1 (int i) = r2 (int i)"
  shows "generate_colliding_keys_upto limit (Some r1) log_size nb kpb
       = generate_colliding_keys_upto limit (Some r2) log_size nb kpb"
proof -
  have "search_candidates r1 log_size nb kpb limit 0 init_state
      = search_candidates r2 log_size nb kpb limit 0 init_state"
    using assms by (intro search_candidates_cong) simp
  then show ?thesis by (simp add: generate_colliding_keys_upto_def)
qed

theorem generate_colliding_keys_deterministic_witness:
  "\<not> (\<exists>i<SEARCH_CEILING.
          (\<lambda>_. 0 :: 64 word) (int i) \<noteq> (\<lambda>i. if i < 16777216 then 0 else 1) (int i))
   \<and> generate_colliding_keys (Some (\<lambda>_. 0)) 6 16 32
     = generate_colliding_keys (Some (\<lambda>i. if i < 16777216 then 0 else 1)) 6 16 32"
proof -
  have h: "\<forall>i<SEARCH_CEILING. (\<lambda>_. 0 :: 64 word) (int i) = (\<lambda>i. if i < 16777216 then 0 else 1) (int i)"
    by (simp add: SEARCH_CEILING_def)
  show ?thesis
    using h generate_colliding_keys_deterministic[OF h, of 6 16 32]
    unfolding generate_colliding_keys_def by blast
qed


section \<open>Shared-counter contention scenario\<close>

text \<open>
  Claim C4. For every thread count and operation count the scenario computes the expected
  final value as their product; it prints no warning exactly when the observed final
  counter value equals that product, flags every deviation with a warning that names the
  expected and the observed value, and returns the Boolean \<open>True\<close> ("survived") in
  either case.
\<close>

theorem dogpile_flags_every_deviation:
  "dogpile_on_atomicint counter_after num_threads ops_per_thread = (msgs, survived) \<Longrightarrow>
     survived
     \<and> (msgs = [] \<longleftrightarrow> counter_after num_threads ops_per_thread = num_threads * ops_per_thread)
     \<and> (counter_after num_threads ops_per_thread \<noteq> num_threads * ops_per_thread \<longrightarrow>
          msgs = [FinalCountWrong (num_threads * ops_per_thread)
                    (counter_after num_threads ops_per_thread)])"
  by (auto simp: dogpile_on_atomicint_def Let_def split: if_splits)

theorem dogpile_flags_every_deviation_witness:
  "dogpile_on_atomicint (\<lambda>n m. n * m) 8 10000 = ([], True)
   \<and> dogpile_on_atomicint (\<lambda>n m. 79999) 8 10000 = ([FinalCountWrong 80000 79999], True)"
proof -
  have a: "dogpile_on_atomicint (\<lambda>n m. n * m) 8 10000 = ([], True)"
    by (simp add: dogpile_on_atomicint_def)
  have b: "dogpile_on_atomicint (\<lambda>n m. 79999) 8 10000 = ([FinalCountWrong 80000 79999], True)"
    by (simp add: dogpile_on_atomicint_def)
  have "True \<and> (([] :: dogpile_message list) = [] \<longleftrightarrow> (8 :: int) * 10000 = 8 * 10000)"
    using dogpile_flags_every_deviation[OF a] by simp
  moreover have "[FinalCountWrong 80000 79999] = [FinalCountWrong (8 * 10000) 79999]"
    using dogpile_flags_every_deviation[OF b] by simp
  ultimately show ?thesis using a b by simp
qed

section \<open>Unstable-hash object\<close>

lemma next_count_simps:
  "fst (next_count w) = unstable_hash_counter w"
  "unstable_hash_counter (snd (next_count w)) = unstable_hash_counter w + 1"
  "store (snd (next_count w)) = store w"
  by (simp_all add: next_count_def)

lemma hash_calls_world:
  "unstable_hash_counter (hash_calls rs w) = unstable_hash_counter w + int (length rs)
   \<and> store (hash_calls rs w) = store w"
  by (induction rs arbitrary: w) (simp_all add: UnstableHash_hash_def next_count_simps)

text \<open>
  Claim C5. Any two calls of \<^verbatim>\<open>__hash__\<close> on an unstable-hash object return different
  values, whether successive (\<open>rs = []\<close>) or separated by further hash calls. Equality
  is the comparison of the field \<^verbatim>\<open>_initial_hash\<close> set at construction: two unstable-hash
  objects are equal exactly when their fields are, and nothing equals an object that is
  not an unstable-hash object. Over unstable-hash objects it is reflexive, symmetric and
  transitive, and no number of intervening hash calls changes its value for a pair of
  objects. Construction takes the field from the shared counter, so two objects
  constructed one after the other are unequal.
\<close>

theorem unstable_hash_properties:
  "fst (UnstableHash_hash a (hash_calls rs (snd (UnstableHash_hash a w))))
      \<noteq> fst (UnstableHash_hash a w)
   \<and> (store w a = Some (UnstableHash x) \<and> store w b = Some (UnstableHash y) \<longrightarrow>
        UnstableHash_eq w a b = (x = y))
   \<and> (\<not> is_UnstableHash w b \<longrightarrow> \<not> UnstableHash_eq w a b)
   \<and> (is_UnstableHash w a \<longrightarrow> UnstableHash_eq w a a)
   \<and> (UnstableHash_eq w a b \<longrightarrow> UnstableHash_eq w b a)
   \<and> (UnstableHash_eq w a b \<and> UnstableHash_eq w b c \<longrightarrow> UnstableHash_eq w a c)
   \<and> UnstableHash_eq (hash_calls rs w) a b = UnstableHash_eq w a b
   \<and> store (UnstableHash_init a w) a = Some (UnstableHash (unstable_hash_counter w))
   \<and> (a \<noteq> b \<longrightarrow> \<not> UnstableHash_eq (UnstableHash_init b (UnstableHash_init a w)) a b)"
proof (intro conjI impI)
  show "fst (UnstableHash_hash a (hash_calls rs (snd (UnstableHash_hash a w))))
      \<noteq> fst (UnstableHash_hash a w)"
    by (simp add: UnstableHash_hash_def next_count_simps hash_calls_world)
  show "UnstableHash_eq w a b = (x = y)"
    if "store w a = Some (UnstableHash x) \<and> store w b = Some (UnstableHash y)"
    using that by (auto simp: UnstableHash_eq_def)
  show "\<not> UnstableHash_eq w a b" if "\<not> is_UnstableHash w b"
    using that by (auto simp: is_UnstableHash_def UnstableHash_eq_def split: option.splits py_object.splits)
  show "UnstableHash_eq w a a" if "is_UnstableHash w a"
    using that by (auto simp: is_UnstableHash_def UnstableHash_eq_def split: option.splits py_object.splits)
  show "UnstableHash_eq w b a" if "UnstableHash_eq w a b"
    using that by (auto simp: UnstableHash_eq_def split: option.splits py_object.splits)
  show "UnstableHash_eq w a c" if "UnstableHash_eq w a b \<and> UnstableHash_eq w b c"
    using that by (auto simp: UnstableHash_eq_def split: option.splits py_object.splits)
  show "UnstableHash_eq (hash_calls rs w) a b = UnstableHash_eq w a b"
    unfolding UnstableHash_eq_def by (simp only: hash_calls_world)
  show "store (UnstableHash_init a w) a = Some (UnstableHash (unstable_hash_counter w))"
    by (simp add: UnstableHash_init_def next_count_def)
  show "\<not> UnstableHash_eq (UnstableHash_init b (UnstableHash_init a w)) a b" if "a \<noteq> b"
    using that by (simp add: UnstableHash_eq_def UnstableHash_init_def next_count_def)
qed

theorem unstable_hash_properties_witness:
  "is_UnstableHash (UnstableHash_init 0 \<lparr>unstable_hash_counter = 0, store = \<lambda>_. None\<rparr>) 0
   \<and> UnstableHash_eq (UnstableHash_init 0 \<lparr>unstable_hash_counter = 0, store = \<lambda>_. None\<rparr>) 0 0
   \<and> fst (UnstableHash_hash 0 (UnstableHash_init 0 \<lparr>unstable_hash_counter = 0, store = \<lambda>_. None\<rparr>)) = 1
   \<and> fst (UnstableHash_hash 0 (snd (UnstableHash_hash 0
            (UnstableHash_init 0 \<lparr>unstable_hash_counter = 0, store = \<lambda>_. None\<rparr>)))) = 2
   \<and> store (UnstableHash_init 1 (UnstableHash_init 0 \<lparr>unstable_hash_counter = 0, store = \<lambda>_. None\<rparr>)) 0
        = Some (UnstableHash 0)
   \<and> store (UnstableHash_init 1 (UnstableHash_init 0 \<lparr>unstable_hash_counter = 0, store = \<lambda>_. None\<rparr>)) 1
        = Some (UnstableHash 1)
   \<and> \<not> UnstableHash_eq
          (UnstableHash_init 1 (UnstableHash_init 0 \<lparr>unstable_hash_counter = 0, store = \<lambda>_. None\<rparr>)) 0 1
   \<and> \<not> is_UnstableHash (UnstableHash_init 0 \<lparr>unstable_hash_counter = 0, store = \<lambda>_. None\<rparr>) 5
   \<and> \<not> UnstableHash_eq (UnstableHash_init 0 \<lparr>unstable_hash_counter = 0, store = \<lambda>_. None\<rparr>) 0 5"
proof -
  let ?w0 = "\<lparr>unstable_hash_counter = 0, store = \<lambda>_. None\<rparr>"
  let ?w = "UnstableHash_init 0 ?w0"
  let ?w2 = "UnstableHash_init 1 ?w"
  have i: "is_UnstableHash ?w 0"
    by (simp add: is_UnstableHash_def UnstableHash_init_def next_count_def)
  have e: "UnstableHash_eq ?w 0 0"
    using unstable_hash_properties[where w = ?w and a = 0 and b = 0 and c = 0] i by blast
  have "UnstableHash_eq ?w 0 0 \<and> UnstableHash_eq ?w 0 0" using e by simp
  then have e': "UnstableHash_eq ?w 0 0"
    using unstable_hash_properties[where w = ?w and a = 0 and b = 0 and c = 0] by blast
  have s0: "store ?w2 0 = Some (UnstableHash 0)"
    by (simp add: UnstableHash_init_def next_count_def)
  have s1: "store ?w2 1 = Some (UnstableHash 1)"
    by (simp add: UnstableHash_init_def next_count_def)
  have "UnstableHash_eq ?w2 0 1 = ((0::int) = 1)"
    using unstable_hash_properties[where w = ?w2 and a = 0 and b = 1 and x = 0 and y = 1] s0 s1
    by blast
  then have ne: "\<not> UnstableHash_eq ?w2 0 1" by simp
  have n5: "\<not> is_UnstableHash ?w 5"
    by (simp add: is_UnstableHash_def UnstableHash_init_def next_count_def)
  then have ne5: "\<not> UnstableHash_eq ?w 0 5"
    using unstable_hash_properties[where w = ?w and a = 0 and b = 5] by blast
  show ?thesis using i e' s0 s1 ne n5 ne5
    by (simp add: UnstableHash_hash_def UnstableHash_init_def next_count_def)
qed

section \<open>Superclass-call abuse\<close>

lemma return_caught_fst:
  "fst (return_caught e s) = (if is_Exception e then Inr (PExc e) else Inl e)"
  by (simp add: return_caught_def)

lemma super_caller_abuse_first_raised:
  "fst (super_caller_abuse (Some m) args kwargs s) =
     (case first_raised m args kwargs s of
        None \<Rightarrow> Inr PNone
      | Some e \<Rightarrow> if is_Exception e then Inr (PExc e) else Inl e)"
  by (simp add: super_caller_abuse_def first_raised_def return_caught_fst
      split: prod.splits sum.splits)

text \<open>
  Claim C6 (as amended). The behaviour calls the inherited operation with the caller's
  arguments twice and then with the wrong arguments. It never propagates an instance of
  \<^verbatim>\<open>Exception\<close>: the first such object raised is returned as the result value. A raised
  object outside the \<^verbatim>\<open>Exception\<close> hierarchy propagates. When no call raises, or the
  base has no such callable, the result is \<^verbatim>\<open>None\<close>.
\<close>

theorem super_caller_abuse_catches_exceptions:
  "(fst (super_caller_abuse super_method args kwargs s) = Inl e \<longrightarrow> \<not> is_Exception e)
   \<and> (super_method = Some m \<and> first_raised m args kwargs s = Some e \<and> is_Exception e \<longrightarrow>
        fst (super_caller_abuse super_method args kwargs s) = Inr (PExc e))
   \<and> (super_method = Some m \<and> first_raised m args kwargs s = Some e \<and> \<not> is_Exception e \<longrightarrow>
        fst (super_caller_abuse super_method args kwargs s) = Inl e)
   \<and> (super_method = Some m \<and> first_raised m args kwargs s = None \<longrightarrow>
        fst (super_caller_abuse super_method args kwargs s) = Inr PNone)
   \<and> (super_method = None \<longrightarrow> super_caller_abuse super_method args kwargs s = (Inr PNone, s))"
proof (intro conjI impI)
  show "\<not> is_Exception e" if "fst (super_caller_abuse super_method args kwargs s) = Inl e"
  proof (cases super_method)
    case None
    then show ?thesis using that by (simp add: super_caller_abuse_def)
  next
    case (Some m')
    then show ?thesis using that
      by (auto simp: super_caller_abuse_first_raised split: option.splits if_splits)
  qed
qed (simp_all add: super_caller_abuse_first_raised, simp add: super_caller_abuse_def)

theorem super_caller_abuse_catches_exceptions_witness:
  "first_raised (\<lambda>args kwargs s. if kwargs = [] then (Inr PNone, s) else (Inl TypeError, s))
      [PInt 1] [] () = Some TypeError
   \<and> is_Exception TypeError
   \<and> fst (super_caller_abuse
        (Some (\<lambda>args kwargs s. if kwargs = [] then (Inr PNone, s) else (Inl TypeError, s)))
        [PInt 1] [] ()) = Inr (PExc TypeError)
   \<and> fst (super_caller_abuse
            (Some (\<lambda>args kwargs s. (Inl SystemExit, s))) [PInt 1] [] ()) = Inl SystemExit
   \<and> \<not> is_Exception SystemExit
   \<and> first_raised (\<lambda>args kwargs s. (Inr PNone, s)) [PInt 1] [] () = None
   \<and> fst (super_caller_abuse (Some (\<lambda>args kwargs s. (Inr PNone, s))) [PInt 1] [] ()) = Inr PNone
   \<and> super_caller_abuse (None :: unit py_method option) [PInt 1] [] () = (Inr PNone, ())"
proof -
  let ?m = "\<lambda>(args :: pyval list) (kwargs :: (string \<times> pyval) list) (s :: unit).
     if kwargs = [] then (Inr PNone :: py_error + pyval, s) else (Inl TypeError, s)"
  let ?x = "\<lambda>(args :: pyval list) (kwargs :: (string \<times> pyval) list) (s :: unit).
     (Inl SystemExit :: py_error + pyval, s)"
  let ?q = "\<lambda>(args :: pyval list) (kwargs :: (string \<times> pyval) list) (s :: unit).
     (Inr PNone :: py_error + pyval, s)"
  have f: "first_raised ?m [PInt 1] [] () = Some TypeError"
    by (simp add: first_raised_def)
  have fx: "first_raised ?x [PInt 1] [] () = Some SystemExit"
    by (simp add: first_raised_def)
  have fq: "first_raised ?q [PInt 1] [] () = None"
    by (simp add: first_raised_def)
  have a: "fst (super_caller_abuse (Some ?m) [PInt 1] [] ()) = Inr (PExc TypeError)"
    using super_caller_abuse_catches_exceptions[of "Some ?m" "[PInt 1]" "[]" "()" TypeError ?m] f
    by simp
  have b: "fst (super_caller_abuse (Some ?x) [PInt 1] [] ()) = Inl SystemExit"
    using super_caller_abuse_catches_exceptions[of "Some ?x" "[PInt 1]" "[]" "()" SystemExit ?x] fx
    by simp
  have c: "fst (super_caller_abuse (Some ?q) [PInt 1] [] ()) = Inr PNone"
    using super_caller_abuse_catches_exceptions[of "Some ?q" "[PInt 1]" "[]" "()" SystemExit ?q] fq
    by simp
  have d: "super_caller_abuse (None :: unit py_method option) [PInt 1] [] () = (Inr PNone, ())"
    using super_caller_abuse_catches_exceptions[of "None :: unit py_method option" "[PInt 1]" "[]" "()"]
    by simp
  show ?thesis using f fq a b c d by simp
qed

text \<open>
  Claim C6 as stated fails: an inherited operation that raises \<^verbatim>\<open>KeyboardInterrupt\<close> is
  not caught by \<^verbatim>\<open>except Exception\<close>, and the behaviour propagates it.
\<close>

theorem super_caller_abuse_propagates_counterexample:
  "super_caller_abuse (Some (\<lambda>args kwargs s. (Inl KeyboardInterrupt, s))) [] [] ()
     = (Inl KeyboardInterrupt, ())"
  by (simp add: super_caller_abuse_def return_caught_def)

section \<open>Wrong-type return\<close>

lemma lookup_append:
  "r < length h \<Longrightarrow> lookup (h @ [obj]) r = lookup h r"
  "lookup (h @ [obj]) (length h) = Some obj"
  by (simp_all add: lookup_def nth_append)

lemma lookup_mutate_other:
  "r \<noteq> r' \<Longrightarrow> lookup (mutate h r' obj) r = lookup h r"
  by (simp add: lookup_def mutate_def)

lemma wrong_typer_container:
  assumes "lookup h r = Some obj" "is_container h (PRef r)"
  shows "wrong_typer (PRef r) self h = (PRef (length h), h @ [obj])"
  using assms
  by (auto simp: wrong_typer_def is_container_def alloc_def split: heap_object.splits)

lemma is_container_cong:
  "lookup h' r = lookup h r \<Longrightarrow> is_container h' (PRef r) = is_container h (PRef r)"
  by (simp add: is_container_def)

text \<open>
  Claim C10 (as amended). When the configured value is a list, dict or set, an invocation
  returns a new container holding the same elements under a reference different from the
  configured one, and leaves the configured object as it was; whatever a caller then
  writes into the returned container itself, a later invocation again returns a new
  container with the configured elements. The copy is shallow: its elements are the
  elements of the configured container, references included. The marker \<^verbatim>\<open>"self"\<close> yields
  the receiving instance; every other value, a reference to a mutable object that is not
  a list, dict or set included, is returned itself.
\<close>

theorem wrong_typer_returns_copy:
  "(lookup h r = Some obj \<and> is_container h (PRef r) \<longrightarrow>
       wrong_typer (PRef r) self h = (PRef (length h), h @ [obj])
       \<and> length h \<noteq> r
       \<and> lookup (h @ [obj]) (length h) = Some obj
       \<and> lookup (h @ [obj]) r = Some obj
       \<and> wrong_typer (PRef r) self (mutate (h @ [obj]) (length h) obj')
           = (PRef (Suc (length h)), mutate (h @ [obj]) (length h) obj' @ [obj]))
   \<and> wrong_typer (PStr ''self'') self h = (self, h)
   \<and> (return_value \<noteq> PStr ''self'' \<and> \<not> is_container h return_value \<longrightarrow>
        wrong_typer return_value self h = (return_value, h))"
proof (intro conjI impI)
  assume a: "lookup h r = Some obj \<and> is_container h (PRef r)"
  then have r: "r < length h" by (auto simp: lookup_def split: if_splits)
  show "wrong_typer (PRef r) self h = (PRef (length h), h @ [obj])"
    using a by (simp add: wrong_typer_container)
  show "length h \<noteq> r" using r by simp
  show "lookup (h @ [obj]) (length h) = Some obj" by (simp add: lookup_append)
  show "lookup (h @ [obj]) r = Some obj" using a r by (simp add: lookup_append)
  let ?h1 = "mutate (h @ [obj]) (length h) obj'"
  have l: "lookup ?h1 r = Some obj"
    using a r by (simp add: lookup_mutate_other lookup_append)
  then have c: "is_container ?h1 (PRef r)"
    using a is_container_cong[of ?h1 r h] by simp
  have "length ?h1 = Suc (length h)" by (simp add: mutate_def)
  then show "wrong_typer (PRef r) self ?h1 = (PRef (Suc (length h)), ?h1 @ [obj])"
    using wrong_typer_container[OF l c, of self] by simp
next
  show "wrong_typer (PStr ''self'') self h = (self, h)"
    by (simp add: wrong_typer_def)
next
  assume "return_value \<noteq> PStr ''self'' \<and> \<not> is_container h return_value"
  then show "wrong_typer return_value self h = (return_value, h)"
    by (auto simp: wrong_typer_def is_container_def split: pyval.splits option.splits heap_object.splits)
qed

theorem wrong_typer_returns_copy_witness:
  "lookup [PInstance ''Weird'', PList [PInt 1, PInt 2]] 1 = Some (PList [PInt 1, PInt 2])
   \<and> is_container [PInstance ''Weird'', PList [PInt 1, PInt 2]] (PRef 1)
   \<and> wrong_typer (PRef 1) (PRef 0) [PInstance ''Weird'', PList [PInt 1, PInt 2]]
       = (PRef 2, [PInstance ''Weird'', PList [PInt 1, PInt 2], PList [PInt 1, PInt 2]])
   \<and> wrong_typer (PRef 1) (PRef 0)
        [PInstance ''Weird'', PList [PInt 1, PInt 2], PList [PInt 1, PInt 2, PInt 3]]
       = (PRef 3, [PInstance ''Weird'', PList [PInt 1, PInt 2], PList [PInt 1, PInt 2, PInt 3],
                   PList [PInt 1, PInt 2]])
   \<and> PInt 12345 \<noteq> PStr ''self''
   \<and> \<not> is_container [PInstance ''Weird'', PList [PInt 1, PInt 2]] (PInt 12345)
   \<and> wrong_typer (PInt 12345) (PRef 0) [PInstance ''Weird'', PList [PInt 1, PInt 2]]
       = (PInt 12345, [PInstance ''Weird'', PList [PInt 1, PInt 2]])"
proof -
  let ?h = "[PInstance ''Weird'', PList [PInt 1, PInt 2]]"
  have l: "lookup ?h 1 = Some (PList [PInt 1, PInt 2])" by (simp add: lookup_def)
  have c: "is_container ?h (PRef 1)" by (simp add: is_container_def lookup_def)
  have n: "PInt 12345 \<noteq> PStr ''self'' \<and> \<not> is_container ?h (PInt 12345)"
    by (simp add: is_container_def)
  note t = wrong_typer_returns_copy[of ?h 1 "PList [PInt 1, PInt 2]" "PRef 0"
      "PList [PInt 1, PInt 2, PInt 3]" "PInt 12345"]
  have a: "wrong_typer (PRef 1) (PRef 0) ?h = (PRef 2, ?h @ [PList [PInt 1, PInt 2]])"
    using t l c by simp
  have b: "wrong_typer (PRef 1) (PRef 0)
      (mutate (?h @ [PList [PInt 1, PInt 2]]) (length ?h) (PList [PInt 1, PInt 2, PInt 3]))
     = (PRef (Suc (length ?h)),
        mutate (?h @ [PList [PInt 1, PInt 2]]) (length ?h) (PList [PInt 1, PInt 2, PInt 3])
          @ [PList [PInt 1, PInt 2]])"
    using t l c by blast
  have d: "wrong_typer (PInt 12345) (PRef 0) ?h = (PInt 12345, ?h)"
    using t n by blast
  show ?thesis using l c n a b d by (simp add: mutate_def)
qed

text \<open>
  Claim C10 as stated fails. The configured value is the list \<open>[[1]]\<close>: reference 1 holds
  the outer list, reference 2 the inner one. The first invocation returns a new outer
  list at reference 3 whose element is still reference 2. The caller appends 2 to that
  element. The later invocation returns a new outer list at reference 4 whose element now
  holds \<open>[1, 2]\<close> where the configured value held \<open>[1]\<close>. A configured mutable object that
  is not a list, dict or set (here a bytearray at reference 0) is returned itself, not a
  copy.
\<close>

theorem wrong_typer_shares_nested_counterexample:
  "wrong_typer (PRef 1) (PRef 0) [PInstance ''Weird'', PList [PRef 2], PList [PInt 1]]
     = (PRef 3, [PInstance ''Weird'', PList [PRef 2], PList [PInt 1], PList [PRef 2]])
   \<and> lookup [PInstance ''Weird'', PList [PRef 2], PList [PInt 1], PList [PRef 2]] 3
       = Some (PList [PRef 2])
   \<and> mutate [PInstance ''Weird'', PList [PRef 2], PList [PInt 1], PList [PRef 2]] 2
         (PList [PInt 1, PInt 2])
       = [PInstance ''Weird'', PList [PRef 2], PList [PInt 1, PInt 2], PList [PRef 2]]
   \<and> wrong_typer (PRef 1) (PRef 0)
         [PInstance ''Weird'', PList [PRef 2], PList [PInt 1, PInt 2], PList [PRef 2]]
       = (PRef 4, [PInstance ''Weird'', PList [PRef 2], PList [PInt 1, PInt 2], PList [PRef 2],
                   PList [PRef 2]])
   \<and> lookup [PInstance ''Weird'', PList [PRef 2], PList [PInt 1, PInt 2], PList [PRef 2],
               PList [PRef 2]] 4 = Some (PList [PRef 2])
   \<and> lookup [PInstance ''Weird'', PList [PRef 2], PList [PInt 1, PInt 2], PList [PRef 2],
               PList [PRef 2]] 2 = Some (PList [PInt 1, PInt 2])
   \<and> lookup [PInstance ''Weird'', PList [PRef 2], PList [PInt 1]] 2 = Some (PList [PInt 1])
   \<and> wrong_typer (PRef 0) (PRef 1) [PInstance ''bytearray'', PInstance ''Weird'']
       = (PRef 0, [PInstance ''bytearray'', PInstance ''Weird''])"
  by (simp add: wrong_typer_def lookup_def alloc_def mutate_def)

section \<open>Variant generation loop\<close>

lemma behaviors_no_suffix:
  "list_all (\<lambda>x. list_all (\<lambda>y. prefix (rev x) (rev y) \<longrightarrow> x = y) (malicious_behaviors True))
     (malicious_behaviors True)"
  by code_simp

lemma behaviors_suffix_eq:
  assumes "x \<in> set (malicious_behaviors True)" "y \<in> set (malicious_behaviors True)" "suffix x y"
  shows "x = y"
proof -
  have "prefix (rev x) (rev y)" using assms(3) by (simp add: suffix_to_prefix)
  then show ?thesis using behaviors_no_suffix assms(1,2) unfolding list_all_iff by blast
qed

lemma behaviors_subset: "set (malicious_behaviors h) \<subseteq> set (malicious_behaviors True)"
  by (auto simp: malicious_behaviors_def)

lemma behavior_tail_inj:
  assumes "x @ ''_'' @ beh = x' @ ''_'' @ beh'"
    "beh \<in> set (malicious_behaviors True)" "beh' \<in> set (malicious_behaviors True)"
  shows "beh = beh' \<and> x = x'"
proof -
  have eq: "(x @ ''_'') @ beh = (x' @ ''_'') @ beh'" using assms(1) by simp
  then obtain us where "(x @ ''_'' = (x' @ ''_'') @ us \<and> us @ beh = beh')
      \<or> ((x @ ''_'') @ us = x' @ ''_'' \<and> beh = us @ beh')"
    unfolding append_eq_append_conv2 by blast
  then have "suffix beh beh' \<or> suffix beh' beh" unfolding suffix_def by metis
  then have b: "beh = beh'" using behaviors_suffix_eq assms(2,3) by blast
  then have "x @ ''_'' = x' @ ''_''" using eq by simp
  then show ?thesis using b by simp
qed

lemma class_method_inj:
  "class_name b @ ''_Override_'' @ m = class_name b' @ ''_Override_'' @ m' \<Longrightarrow> b = b' \<and> m = m'"
  by (cases b; cases b') simp_all

lemma instance_name_inj:
  assumes "instance_name (b, m, beh) = instance_name (b', m', beh')"
    "beh \<in> set (malicious_behaviors True)" "beh' \<in> set (malicious_behaviors True)"
  shows "(b, m, beh) = (b', m', beh')"
proof -
  have "(class_name b @ ''_Override_'' @ m) @ ''_'' @ beh
      = (class_name b' @ ''_Override_'' @ m') @ ''_'' @ beh'"
    using assms(1) by (simp add: instance_name_def)
  then have "beh = beh' \<and> class_name b @ ''_Override_'' @ m = class_name b' @ ''_Override_'' @ m'"
    using behavior_tail_inj assms(2,3) by blast
  then show ?thesis using class_method_inj by blast
qed

lemma combinations_behavior:
  "(b, m, beh) \<in> set (combinations h) \<Longrightarrow> beh \<in> set (malicious_behaviors True)"
  using behaviors_subset[of h] by (auto simp: combinations_def)

lemma inj_on_instance_name: "inj_on instance_name (set (combinations h))"
proof (rule inj_onI)
  fix c c' assume a: "c \<in> set (combinations h)" "c' \<in> set (combinations h)"
    "instance_name c = instance_name c'"
  obtain b m beh where c: "c = (b, m, beh)" by (cases c)
  obtain b' m' beh' where c': "c' = (b', m', beh')" by (cases c')
  show "c = c'"
    using a instance_name_inj[of b m beh b' m' beh'] combinations_behavior unfolding c c' by blast
qed

lemma generate_step_created:
  "created instantiate c = Some inst \<Longrightarrow>
   generate instantiate (c # cs) st =
     generate instantiate cs (st\<lparr>catalog := AList.update (instance_name c) inst (catalog st)\<rparr>)"
  by (simp add: created_def split: sum.splits)

lemma generate_step_failed:
  "failure instantiate c = Some e \<Longrightarrow> is_Exception e \<Longrightarrow>
   generate instantiate (c # cs) st =
     generate instantiate cs (st\<lparr>stderr := stderr st @ [CouldNotInstantiate (weird_class_name c) e]\<rparr>)"
  by (simp add: failure_def split: sum.splits)

lemma generate_step_abort:
  "failure instantiate c = Some e \<Longrightarrow> \<not> is_Exception e \<Longrightarrow>
   generate instantiate (c # cs) st = Inl e"
  by (simp add: failure_def split: sum.splits)

lemma created_or_failure:
  "(\<exists>inst. created instantiate c = Some inst \<and> failure instantiate c = None)
   \<or> (\<exists>e. failure instantiate c = Some e \<and> created instantiate c = None)"
  by (simp add: created_def failure_def split: sum.splits)

lemma warnings_Cons:
  "warnings instantiate (c # cs) =
     (case failure instantiate c of
        None \<Rightarrow> warnings instantiate cs
      | Some e \<Rightarrow> CouldNotInstantiate (weird_class_name c) e # warnings instantiate cs)"
  by (simp add: warnings_def map_filter_simps split: option.splits)

lemma generate_completes:
  assumes "\<forall>c \<in> set cs. \<forall>e. failure instantiate c = Some e \<longrightarrow> is_Exception e"
    and "inj_on instance_name (set cs)"
    and "distinct (map fst (catalog st))"
  shows "\<exists>st'. generate instantiate cs st = Inr st'
      \<and> distinct (map fst (catalog st'))
      \<and> (\<forall>c \<in> set cs. \<forall>inst. created instantiate c = Some inst \<longrightarrow>
            map_of (catalog st') (instance_name c) = Some inst)
      \<and> (\<forall>name. name \<notin> instance_name ` {c \<in> set cs. created instantiate c \<noteq> None} \<longrightarrow>
            map_of (catalog st') name = map_of (catalog st) name)
      \<and> stderr st' = stderr st @ warnings instantiate cs"
  using assms
proof (induction cs arbitrary: st)
  case Nil
  then show ?case by (simp add: warnings_def map_filter_simps)
next
  case (Cons c cs)
  have ok: "\<forall>c \<in> set cs. \<forall>e. failure instantiate c = Some e \<longrightarrow> is_Exception e"
    using Cons.prems(1) by simp
  have inj: "inj_on instance_name (set cs)"
    using Cons.prems(2) by (simp add: inj_on_def)
  consider inst where "created instantiate c = Some inst" "failure instantiate c = None"
    | e where "failure instantiate c = Some e" "created instantiate c = None"
    using created_or_failure[of instantiate c] by blast
  then show ?case
  proof cases
    case 1
    let ?st1 = "st\<lparr>catalog := AList.update (instance_name c) inst (catalog st)\<rparr>"
    have d1: "distinct (map fst (catalog ?st1))"
      using Cons.prems(3) by (simp add: distinct_update)
    from Cons.IH[OF ok inj d1] obtain st' where st':
      "generate instantiate cs ?st1 = Inr st'"
      "distinct (map fst (catalog st'))"
      "\<forall>c \<in> set cs. \<forall>inst. created instantiate c = Some inst \<longrightarrow>
            map_of (catalog st') (instance_name c) = Some inst"
      "\<forall>name. name \<notin> instance_name ` {c \<in> set cs. created instantiate c \<noteq> None} \<longrightarrow>
            map_of (catalog st') name = map_of (catalog ?st1) name"
      "stderr st' = stderr ?st1 @ warnings instantiate cs"
      by blast
    have g: "generate instantiate (c # cs) st = Inr st'"
      using generate_step_created[OF 1(1)] st'(1) by simp
    have a: "map_of (catalog st') (instance_name c') = Some inst'"
      if "c' \<in> set (c # cs)" "created instantiate c' = Some inst'" for c' inst'
    proof (cases "c' \<in> set cs")
      case True
      then show ?thesis using st'(3) that(2) by blast
    next
      case False
      then have cc: "c' = c" using that(1) by simp
      then have ii: "inst' = inst" using that(2) 1(1) by simp
      have "instance_name c \<notin> instance_name ` {c \<in> set cs. created instantiate c \<noteq> None}"
      proof
        assume "instance_name c \<in> instance_name ` {c \<in> set cs. created instantiate c \<noteq> None}"
        then obtain d where "d \<in> set cs" "instance_name d = instance_name c" by auto
        then have "d = c" using Cons.prems(2) by (simp add: inj_on_def)
        then show False using \<open>d \<in> set cs\<close> False cc by simp
      qed
      then have "map_of (catalog st') (instance_name c) = map_of (catalog ?st1) (instance_name c)"
        using st'(4) by blast
      then show ?thesis using cc ii by (simp add: update_conv')
    qed
    have b: "map_of (catalog st') name = map_of (catalog st) name"
      if "name \<notin> instance_name ` {c' \<in> set (c # cs). created instantiate c' \<noteq> None}" for name
    proof -
      have n1: "name \<noteq> instance_name c" using that 1(1) by auto
      have "name \<notin> instance_name ` {c \<in> set cs. created instantiate c \<noteq> None}"
        using that by auto
      then have "map_of (catalog st') name = map_of (catalog ?st1) name" using st'(4) by blast
      then show ?thesis using n1 by (simp add: update_conv')
    qed
    have w: "stderr st' = stderr st @ warnings instantiate (c # cs)"
      using st'(5) 1(2) by (simp add: warnings_Cons)
    show ?thesis using g st'(2) a b w by blast
  next
    case 2
    have ex: "is_Exception e" using Cons.prems(1) 2(1) by simp
    let ?st1 = "st\<lparr>stderr := stderr st @ [CouldNotInstantiate (weird_class_name c) e]\<rparr>"
    have d1: "distinct (map fst (catalog ?st1))" using Cons.prems(3) by simp
    from Cons.IH[OF ok inj d1] obtain st' where st':
      "generate instantiate cs ?st1 = Inr st'"
      "distinct (map fst (catalog st'))"
      "\<forall>c \<in> set cs. \<forall>inst. created instantiate c = Some inst \<longrightarrow>
            map_of (catalog st') (instance_name c) = Some inst"
      "\<forall>name. name \<notin> instance_name ` {c \<in> set cs. created instantiate c \<noteq> None} \<longrightarrow>
            map_of (catalog st') name = map_of (catalog ?st1) name"
      "stderr st' = stderr ?st1 @ warnings instantiate cs"
      by blast
    have g: "generate instantiate (c # cs) st = Inr st'"
      using generate_step_failed[OF 2(1) ex] st'(1) by simp
    have a: "map_of (catalog st') (instance_name c') = Some inst'"
      if "c' \<in> set (c # cs)" "created instantiate c' = Some inst'" for c' inst'
    proof -
      have "c' \<noteq> c" using that(2) 2(2) by auto
      then show ?thesis using that st'(3) by simp
    qed
    have b: "map_of (catalog st') name = map_of (catalog st) name"
      if "name \<notin> instance_name ` {c' \<in> set (c # cs). created instantiate c' \<noteq> None}" for name
    proof -
      have "name \<notin> instance_name ` {c \<in> set cs. created instantiate c \<noteq> None}"
        using that by auto
      then show ?thesis using st'(4) by simp
    qed
    have w: "stderr st' = stderr st @ warnings instantiate (c # cs)"
      using st'(5) 2(1) by (simp add: warnings_Cons)
    show ?thesis using g st'(2) a b w by blast
  qed
qed

text \<open>
  Claim C7 (as amended). When every instantiation failure is an instance of
  \<^verbatim>\<open>Exception\<close>, the loop completes whatever the number of failures: the names of the
  catalog are in one-to-one correspondence with the combinations whose instantiation
  succeeded, each name maps to the instance created for its combination, and one warning
  is printed per failed combination, in order.
\<close>

theorem catalog_one_instance_per_success:
  assumes "\<forall>c \<in> set (combinations has_deps).
             \<forall>e. failure instantiate c = Some e \<longrightarrow> is_Exception e"
  shows "\<exists>st. tricky_weird_cereggii_objects has_deps instantiate = Inr st
      \<and> distinct (map fst (catalog st))
      \<and> bij_betw instance_name
          {c \<in> set (combinations has_deps). created instantiate c \<noteq> None}
          (dom (map_of (catalog st)))
      \<and> (\<forall>c \<in> set (combinations has_deps). \<forall>inst. created instantiate c = Some inst \<longrightarrow>
            map_of (catalog st) (instance_name c) = Some inst)
      \<and> stderr st = warnings instantiate (combinations has_deps)"
proof -
  let ?cs = "combinations has_deps"
  let ?S = "{c \<in> set ?cs. created instantiate c \<noteq> None}"
  have d0: "distinct (map fst (catalog \<lparr>catalog = [], stderr = []\<rparr> :: (string \<times> 'a) list))"
    by simp
  let ?st0 = "\<lparr>catalog = [], stderr = []\<rparr> :: 'a build_state"
  have "\<exists>st. generate instantiate ?cs ?st0 = Inr st
      \<and> distinct (map fst (catalog st))
      \<and> (\<forall>c \<in> set ?cs. \<forall>inst. created instantiate c = Some inst \<longrightarrow>
            map_of (catalog st) (instance_name c) = Some inst)
      \<and> (\<forall>name. name \<notin> instance_name ` ?S \<longrightarrow>
            map_of (catalog st) name = map_of (catalog ?st0) name)
      \<and> stderr st = stderr ?st0 @ warnings instantiate ?cs"
    by (rule generate_completes[OF assms inj_on_instance_name d0])
  then obtain st where big: "generate instantiate ?cs ?st0 = Inr st
      \<and> distinct (map fst (catalog st))
      \<and> (\<forall>c \<in> set ?cs. \<forall>inst. created instantiate c = Some inst \<longrightarrow>
            map_of (catalog st) (instance_name c) = Some inst)
      \<and> (\<forall>name. name \<notin> instance_name ` ?S \<longrightarrow>
            map_of (catalog st) name = map_of (catalog ?st0) name)
      \<and> stderr st = stderr ?st0 @ warnings instantiate ?cs" ..
  note st0 = big[THEN conjunct1] big[THEN conjunct2, THEN conjunct1]
    big[THEN conjunct2, THEN conjunct2, THEN conjunct1]
    big[THEN conjunct2, THEN conjunct2, THEN conjunct2, THEN conjunct1]
    big[THEN conjunct2, THEN conjunct2, THEN conjunct2, THEN conjunct2]
  have st4: "\<forall>name. name \<notin> instance_name ` ?S \<longrightarrow> map_of (catalog st) name = None"
    using st0(4) by simp
  have st5: "stderr st = warnings instantiate ?cs"
    using st0(5) by simp
  note st = st0(1,2,3) st4 st5
  have "dom (map_of (catalog st)) = instance_name ` ?S"
  proof
    show "dom (map_of (catalog st)) \<subseteq> instance_name ` ?S"
    proof
      fix name assume "name \<in> dom (map_of (catalog st))"
      then have ne: "map_of (catalog st) name \<noteq> None" by (simp add: dom_def)
      show "name \<in> instance_name ` ?S"
      proof (rule ccontr)
        assume n: "name \<notin> instance_name ` ?S"
        have "map_of (catalog st) name = None" by (rule st4[rule_format, OF n])
        then show False using ne by (rule notE[rotated])
      qed
    qed
    show "instance_name ` ?S \<subseteq> dom (map_of (catalog st))"
    proof
      fix name assume "name \<in> instance_name ` ?S"
      then obtain c where c: "c \<in> ?S" "name = instance_name c" by (rule imageE)
      have cs: "c \<in> set ?cs" and cr: "created instantiate c \<noteq> None"
        using c(1) by simp_all
      obtain inst where i: "created instantiate c = Some inst"
        using cr by (cases "created instantiate c") simp_all
      have "map_of (catalog st) (instance_name c) = Some inst"
        by (rule st0(3)[rule_format, OF cs i])
      then show "name \<in> dom (map_of (catalog st))" unfolding c(2) by (rule domI)
    qed
  qed
  then have dom: "instance_name ` ?S = dom (map_of (catalog st))" by (rule sym)
  have "inj_on instance_name ?S"
    using inj_on_instance_name[of has_deps] by (rule inj_on_subset) blast
  then have bij: "bij_betw instance_name ?S (dom (map_of (catalog st)))"
    using dom unfolding bij_betw_def by (rule conjI)
  have run: "tricky_weird_cereggii_objects has_deps instantiate = Inr st"
    unfolding tricky_weird_cereggii_objects_def by (rule st(1))
  show ?thesis
    by (intro exI[of _ st] conjI run st(2) bij st(3) st(5))
qed

theorem catalog_one_instance_per_success_witness:
  "\<not> (\<exists>c \<in> set (combinations False). \<exists>e.
          failure (\<lambda>c args. if fst c = ThreadHandle then Inl TypeError else Inr args) c = Some e
            \<and> \<not> is_Exception e)
   \<and> (\<exists>st. tricky_weird_cereggii_objects False
              (\<lambda>c args. if fst c = ThreadHandle then Inl TypeError else Inr args) = Inr st
      \<and> distinct (map fst (catalog st))
      \<and> bij_betw instance_name
          {c \<in> set (combinations False).
             created (\<lambda>c args. if fst c = ThreadHandle then Inl TypeError else Inr args) c \<noteq> None}
          (dom (map_of (catalog st)))
      \<and> map_of (catalog st) ''instance_of_Weird_CountDownLatch_Override_wait_return_None''
          = Some [PInt 1]
      \<and> stderr st = warnings (\<lambda>c args. if fst c = ThreadHandle then Inl TypeError else Inr args)
            (combinations False))"
proof -
  let ?i = "\<lambda>(c :: combination) (args :: pyval list).
      if fst c = ThreadHandle then (Inl TypeError :: py_error + pyval list) else Inr args"
  have h: "\<forall>c \<in> set (combinations False). \<forall>e. failure ?i c = Some e \<longrightarrow> is_Exception e"
    by (auto simp: failure_def split: if_splits)
  have m: "(CountDownLatch, ''wait'', ''return_None'') \<in> set (combinations False)"
    by (simp add: combinations_def TARGET_METHODS_def malicious_behaviors_def)
  have c: "created ?i (CountDownLatch, ''wait'', ''return_None'') = Some [PInt 1]"
    by (simp add: created_def)
  have n: "instance_name (CountDownLatch, ''wait'', ''return_None'')
      = ''instance_of_Weird_CountDownLatch_Override_wait_return_None''"
    by (simp add: instance_name_def)
  from catalog_one_instance_per_success[OF h]
  obtain st where st: "tricky_weird_cereggii_objects False ?i = Inr st"
    "distinct (map fst (catalog st))"
    "bij_betw instance_name {c \<in> set (combinations False). created ?i c \<noteq> None}
        (dom (map_of (catalog st)))"
    "\<forall>c \<in> set (combinations False). \<forall>inst. created ?i c = Some inst \<longrightarrow>
            map_of (catalog st) (instance_name c) = Some inst"
    "stderr st = warnings ?i (combinations False)"
    by blast
  have "map_of (catalog st) ''instance_of_Weird_CountDownLatch_Override_wait_return_None''
      = Some [PInt 1]"
    using st(4) m c n by metis
  then show ?thesis using h st(1,2,3,5) by blast
qed

lemma combinations_nonempty:
  "\<exists>c cs. combinations has_deps = c # cs"
  by (simp add: combinations_def TARGET_METHODS_def malicious_behaviors_def)

text \<open>
  Claim C7 as stated fails: an instantiation that raises \<^verbatim>\<open>KeyboardInterrupt\<close> is not
  caught by \<^verbatim>\<open>except Exception\<close>, and the construction of the catalog aborts.
\<close>

theorem catalog_abort_counterexample:
  "tricky_weird_cereggii_objects True (\<lambda>c args. (Inl KeyboardInterrupt :: py_error + unit))
     = Inl KeyboardInterrupt"
proof -
  obtain c cs where "combinations True = c # cs" using combinations_nonempty by blast
  then show ?thesis
    by (simp add: tricky_weird_cereggii_objects_def)
qed


section \<open>Random-operations scenario\<close>

lemma run_steps_Cons_True:
  "fst (run_steps D M n (step # steps) d m) = Inr True \<longleftrightarrow>
     (\<exists>d' m' out. try_step D M step d m = Inr (d', m', out)
        \<and> lengths_agree D M d' m' = Inr True
        \<and> fst (run_steps D M (Suc n) steps d' m') = Inr True)"
  by (auto simp: lengths_agree_def split: sum.splits prod.splits)

lemma run_steps_Cons_False:
  "fst (run_steps D M n (step # steps) d m) = Inr False \<longleftrightarrow>
     (\<exists>d' m' out. try_step D M step d m = Inr (d', m', out)
        \<and> (lengths_agree D M d' m' = Inr False
            \<or> lengths_agree D M d' m' = Inr True
               \<and> fst (run_steps D M (Suc n) steps d' m') = Inr False))"
  by (auto simp: lengths_agree_def split: sum.splits prod.splits)

lemma agree_after_0:
  "agree_after D M d m (step # steps) 0 =
     (case try_step D M step d m of
        Inl e \<Rightarrow> Inl e
      | Inr (d', m', out) \<Rightarrow> lengths_agree D M d' m')"
  by (simp add: agree_after_def split: sum.splits prod.splits)

lemma agree_after_Suc:
  "agree_after D M d m (step # steps) (Suc j) =
     (case try_step D M step d m of
        Inl e \<Rightarrow> Inl e
      | Inr (d', m', out) \<Rightarrow> agree_after D M d' m' steps j)"
  by (simp add: agree_after_def split: sum.splits prod.splits)

lemma run_steps_True_iff:
  "fst (run_steps D M n steps d m) = Inr True \<longleftrightarrow>
     (\<forall>i<length steps. agree_after D M d m steps i = Inr True)"
proof (induction steps arbitrary: n d m)
  case Nil
  show ?case by simp
next
  case (Cons step steps)
  show ?case
  proof (cases "try_step D M step d m")
    case (Inl e)
    then show ?thesis
      by (auto simp: run_steps_Cons_True agree_after_0 simp del: run_steps.simps intro: exI[of _ 0])
  next
    case (Inr r)
    obtain d' m' out where r: "r = (d', m', out)" by (cases r)
    have "(\<forall>i<length (step # steps). agree_after D M d m (step # steps) i = Inr True) \<longleftrightarrow>
        agree_after D M d m (step # steps) 0 = Inr True
        \<and> (\<forall>i<length steps. agree_after D M d m (step # steps) (Suc i) = Inr True)"
      by (simp add: All_less_Suc2)
    also have "\<dots> \<longleftrightarrow> lengths_agree D M d' m' = Inr True
        \<and> (\<forall>i<length steps. agree_after D M d' m' steps i = Inr True)"
      using Inr r by (simp add: agree_after_0 agree_after_Suc)
    also have "\<dots> \<longleftrightarrow> lengths_agree D M d' m' = Inr True
        \<and> fst (run_steps D M (Suc n) steps d' m') = Inr True"
      using Cons.IH[of "Suc n" d' m'] by simp
    also have "\<dots> \<longleftrightarrow> fst (run_steps D M n (step # steps) d m) = Inr True"
      using Inr r by (simp add: run_steps_Cons_True del: run_steps.simps)
    finally show ?thesis by simp
  qed
qed

lemma run_steps_False_iff:
  "fst (run_steps D M n steps d m) = Inr False \<longleftrightarrow>
     (\<exists>j<length steps. agree_after D M d m steps j = Inr False
        \<and> (\<forall>i<j. agree_after D M d m steps i = Inr True))"
proof (induction steps arbitrary: n d m)
  case Nil
  show ?case by simp
next
  case (Cons step steps)
  let ?A = "agree_after D M d m (step # steps)"
  have split: "(\<exists>j<length (step # steps). ?A j = Inr False \<and> (\<forall>i<j. ?A i = Inr True)) \<longleftrightarrow>
      ?A 0 = Inr False
      \<or> (\<exists>j<length steps. ?A (Suc j) = Inr False
            \<and> ?A 0 = Inr True \<and> (\<forall>i<j. ?A (Suc i) = Inr True))"
    by (simp add: Ex_less_Suc2 All_less_Suc2)
  show ?case
  proof (cases "try_step D M step d m")
    case (Inl e)
    then show ?thesis unfolding split
      by (simp add: run_steps_Cons_False agree_after_0 agree_after_Suc del: run_steps.simps)
  next
    case (Inr r)
    obtain d' m' out where r: "r = (d', m', out)" by (cases r)
    have "(\<exists>j<length (step # steps). ?A j = Inr False \<and> (\<forall>i<j. ?A i = Inr True)) \<longleftrightarrow>
        lengths_agree D M d' m' = Inr False
        \<or> (\<exists>j<length steps. agree_after D M d' m' steps j = Inr False
              \<and> lengths_agree D M d' m' = Inr True
              \<and> (\<forall>i<j. agree_after D M d' m' steps i = Inr True))"
      unfolding split using Inr r by (simp add: agree_after_0 agree_after_Suc)
    also have "\<dots> \<longleftrightarrow> lengths_agree D M d' m' = Inr False
        \<or> lengths_agree D M d' m' = Inr True
          \<and> (\<exists>j<length steps. agree_after D M d' m' steps j = Inr False
              \<and> (\<forall>i<j. agree_after D M d' m' steps i = Inr True))"
      by blast
    also have "\<dots> \<longleftrightarrow> lengths_agree D M d' m' = Inr False
        \<or> lengths_agree D M d' m' = Inr True
          \<and> fst (run_steps D M (Suc n) steps d' m') = Inr False"
      using Cons.IH[of "Suc n" d' m'] by simp
    also have "\<dots> \<longleftrightarrow> fst (run_steps D M n (step # steps) d m) = Inr False"
      using Inr r by (simp add: run_steps_Cons_False del: run_steps.simps)
    finally show ?thesis by simp
  qed
qed

lemma try_step_both_succeed:
  assumes "fst (apply_op D op key val d) = None" "fst (apply_op M op key val m) = None"
  shows "try_step D M (op, key, val) d m
     = Inr (snd (apply_op D op key val d), snd (apply_op M op key val m), [])"
  using assms by (auto simp: try_step_def split: prod.splits option.splits)

lemma agree_after_prefix:
  assumes "i \<le> j" "j < length steps"
  shows "agree_after D M d0 m0 (take (Suc j) steps @ steps') i = agree_after D M d0 m0 steps i"
proof -
  have "take (Suc i) (take (Suc j) steps @ steps') = take (Suc i) steps"
    using assms by (simp add: min_def)
  then show ?thesis by (simp add: agree_after_def)
qed

lemma run_sound:
  "scenario_random_ops alist_dict alist_dict [] []
      [(Setitem, 1 :: nat, 10 :: int), (Getitem, 2, 0), (Delitem, 1, 0), (Len, 0, 0)]
     = (Inr True, [])"
  by (simp add: scenario_random_ops_def try_step_def handle_expected_def alist_dict_def)

lemma run_leaky:
  "scenario_random_ops leaky_dict alist_dict [] []
      [(Setitem, 1 :: nat, 10 :: int), (Getitem, 2, 0), (Delitem, 1, 0), (Len, 0, 0)]
     = (Inr False, [LengthMismatch 2 Delitem 1 0])"
  by (simp add: scenario_random_ops_def try_step_def handle_expected_def alist_dict_def
      leaky_dict_def)

text \<open>
  Claim C9. The scenario keeps a model beside the atomic map. An operation that succeeds
  on both is applied once to each, with the same key and value. The lengths are compared
  after every step: the scenario returns \<open>False\<close> exactly when there is a first step
  after which the lengths differ (the lengths having agreed after every earlier step),
  and then whatever steps would follow are not run; it returns \<open>True\<close> exactly when the
  lengths agreed after every step.
\<close>

theorem scenario_random_ops_checks_lengths:
  "(fst (scenario_random_ops D M d0 m0 steps) = Inr False \<longleftrightarrow>
      (\<exists>j<length steps. agree_after D M d0 m0 steps j = Inr False
          \<and> (\<forall>i<j. agree_after D M d0 m0 steps i = Inr True)))
   \<and> (fst (scenario_random_ops D M d0 m0 steps) = Inr True \<longleftrightarrow>
      (\<forall>i<length steps. agree_after D M d0 m0 steps i = Inr True))
   \<and> (j < length steps \<and> agree_after D M d0 m0 steps j = Inr False
        \<and> (\<forall>i<j. agree_after D M d0 m0 steps i = Inr True) \<longrightarrow>
      fst (scenario_random_ops D M d0 m0 (take (Suc j) steps @ steps')) = Inr False)
   \<and> (fst (apply_op D op key val d) = None \<and> fst (apply_op M op key val m) = None \<longrightarrow>
      try_step D M (op, key, val) d m
        = Inr (snd (apply_op D op key val d), snd (apply_op M op key val m), []))"
proof (intro conjI impI)
  show "fst (scenario_random_ops D M d0 m0 steps) = Inr False \<longleftrightarrow>
      (\<exists>j<length steps. agree_after D M d0 m0 steps j = Inr False
          \<and> (\<forall>i<j. agree_after D M d0 m0 steps i = Inr True))"
    unfolding scenario_random_ops_def by (rule run_steps_False_iff)
  show "fst (scenario_random_ops D M d0 m0 steps) = Inr True \<longleftrightarrow>
      (\<forall>i<length steps. agree_after D M d0 m0 steps i = Inr True)"
    unfolding scenario_random_ops_def by (rule run_steps_True_iff)
next
  assume a: "j < length steps \<and> agree_after D M d0 m0 steps j = Inr False
        \<and> (\<forall>i<j. agree_after D M d0 m0 steps i = Inr True)"
  let ?steps = "take (Suc j) steps @ steps'"
  have l: "j < length ?steps" using a by simp
  have f: "agree_after D M d0 m0 ?steps j = Inr False"
    using a agree_after_prefix[of j j steps D M d0 m0 steps'] by simp
  have t: "\<forall>i<j. agree_after D M d0 m0 ?steps i = Inr True"
  proof (intro allI impI)
    fix i assume "i < j"
    then show "agree_after D M d0 m0 ?steps i = Inr True"
      using a agree_after_prefix[of i j steps D M d0 m0 steps'] by simp
  qed
  have "\<exists>j<length ?steps. agree_after D M d0 m0 ?steps j = Inr False
          \<and> (\<forall>i<j. agree_after D M d0 m0 ?steps i = Inr True)"
    using l f t by blast
  then show "fst (scenario_random_ops D M d0 m0 ?steps) = Inr False"
    unfolding scenario_random_ops_def run_steps_False_iff .
next
  assume "fst (apply_op D op key val d) = None \<and> fst (apply_op M op key val m) = None"
  then show "try_step D M (op, key, val) d m
        = Inr (snd (apply_op D op key val d), snd (apply_op M op key val m), [])"
    by (simp add: try_step_both_succeed)
qed

theorem scenario_random_ops_checks_lengths_witness:
  "fst (scenario_random_ops alist_dict alist_dict [] []
      [(Setitem, 1 :: nat, 10 :: int), (Getitem, 2, 0), (Delitem, 1, 0), (Len, 0, 0)]) = Inr True
   \<and> \<not> (\<exists>i<4. agree_after alist_dict alist_dict [] []
            [(Setitem, 1 :: nat, 10 :: int), (Getitem, 2, 0), (Delitem, 1, 0), (Len, 0, 0)] i
          \<noteq> Inr True)
   \<and> fst (scenario_random_ops leaky_dict alist_dict [] []
      [(Setitem, 1 :: nat, 10 :: int), (Getitem, 2, 0), (Delitem, 1, 0), (Len, 0, 0)]) = Inr False
   \<and> (\<exists>j<4. agree_after leaky_dict alist_dict [] []
            [(Setitem, 1 :: nat, 10 :: int), (Getitem, 2, 0), (Delitem, 1, 0), (Len, 0, 0)] j
          = Inr False
        \<and> (\<forall>i<j. agree_after leaky_dict alist_dict [] []
            [(Setitem, 1 :: nat, 10 :: int), (Getitem, 2, 0), (Delitem, 1, 0), (Len, 0, 0)] i
          = Inr True))
   \<and> fst (apply_op alist_dict Setitem (1 :: nat) (10 :: int) []) = None
   \<and> try_step alist_dict alist_dict (Setitem, 1 :: nat, 10 :: int) [] []
        = Inr ([(1, 10)], [(1, 10)], [])"
proof -
  let ?steps = "[(Setitem, 1 :: nat, 10 :: int), (Getitem, 2, 0), (Delitem, 1, 0), (Len, 0, 0)]"
  let ?A = "alist_dict :: ((nat \<times> int) list, nat, int) dict_ops"
  let ?L = "leaky_dict :: ((nat \<times> int) list, nat, int) dict_ops"
  have t: "fst (scenario_random_ops ?A ?A [] [] ?steps) = Inr True"
    unfolding run_sound by (rule fst_conv)
  have f: "fst (scenario_random_ops ?L ?A [] [] ?steps) = Inr False"
    unfolding run_leaky by (rule fst_conv)
  have s: "fst (apply_op ?A Setitem 1 10 []) = None \<and> fst (apply_op ?A Setitem 1 10 []) = None"
    by (simp add: alist_dict_def)
  note th1 = scenario_random_ops_checks_lengths[of ?A ?A "[]" "[]" ?steps 0 "[]" Setitem 1 10 "[]" "[]"]
  note th2 = scenario_random_ops_checks_lengths[of ?L ?A "[]" "[]" ?steps 0 "[]" Setitem 1 10 "[]" "[]"]
  have a: "\<forall>i<length ?steps. agree_after ?A ?A [] [] ?steps i = Inr True"
    using th1[THEN conjunct2, THEN conjunct1] t by blast
  have b: "\<exists>j<length ?steps. agree_after ?L ?A [] [] ?steps j = Inr False
          \<and> (\<forall>i<j. agree_after ?L ?A [] [] ?steps i = Inr True)"
    using th2[THEN conjunct1] f by blast
  have c: "try_step ?A ?A (Setitem, 1, 10) [] []
      = Inr (snd (apply_op ?A Setitem 1 10 []), snd (apply_op ?A Setitem 1 10 []), [])"
    using th1[THEN conjunct2, THEN conjunct2, THEN conjunct2] s by blast
  have c': "try_step ?A ?A (Setitem, 1, 10) [] [] = Inr ([(1, 10)], [(1, 10)], [])"
    using c by (simp add: alist_dict_def)
  have len4: "length ?steps = 4" by simp
  have a': "\<not> (\<exists>i<4. agree_after ?A ?A [] [] ?steps i \<noteq> Inr True)"
    using a unfolding len4 by blast
  have b': "\<exists>j<4. agree_after ?L ?A [] [] ?steps j = Inr False
          \<and> (\<forall>i<j. agree_after ?L ?A [] [] ?steps i = Inr True)"
    using b unfolding len4 .
  show ?thesis using t a' f b' s c' by blast
qed

section \<open>Orchestration of the race scenarios\<close>

lemma join_timeout_returns:
  "\<exists>t. join (Some d) l f now = Some t \<and> now \<le> t \<and> t \<le> now + d + l"
  by (cases f) (simp_all add: join_def)

lemma join_all_timeout_returns:
  "\<exists>t. join_all (Some d) late k fs now = Some t
       \<and> t \<le> now + (\<Sum>i<length fs. d + late (k + i))"
proof (induction fs arbitrary: k now)
  case Nil
  show ?case by simp
next
  case (Cons f fs)
  obtain t1 where t1: "join (Some d) (late k) f now = Some t1" "t1 \<le> now + d + late k"
    using join_timeout_returns[of d "late k" f now] by blast
  obtain t where t: "join_all (Some d) late (Suc k) fs t1 = Some t"
    "t \<le> t1 + (\<Sum>i<length fs. d + late (Suc k + i))"
    using Cons.IH[of "Suc k" t1] by blast
  have "(\<Sum>i<length (f # fs). d + late (k + i))
      = (d + late k) + (\<Sum>i<length fs. d + late (Suc k + i))"
    by (simp add: sum.lessThan_Suc_shift del: sum.lessThan_Suc)
  then have "t \<le> now + (\<Sum>i<length (f # fs). d + late (k + i))"
    using t(2) t1(2) by linarith
  then show ?case using t1(1) t(1) by simp
qed

lemma join_all_None_iff:
  "join_all None late k fs now = None \<longleftrightarrow> NeverExits \<in> set fs"
proof (induction fs arbitrary: k now)
  case Nil
  show ?case by simp
next
  case (Cons f fs)
  show ?case
  proof (cases f)
    case (ExitsAt t)
    then show ?thesis using Cons.IH[of "Suc k" "max now t + late k"] by (simp add: join_def)
  next
    case NeverExits
    then show ?thesis by (simp add: join_def)
  qed
qed

text \<open>
  The iterator-vs-mutation scenario joins without a timeout: given a valid duration, it
  returns exactly when every worker exits.
\<close>

lemma fast_iter_blocks_iff:
  assumes "0 \<le> duration_ms"
  shows "fast_iter_vs_mutation_race num_iter_threads num_chaos_threads duration_ms late fate_of
           = None
     \<longleftrightarrow> (\<exists>i < nat num_iter_threads + nat num_chaos_threads. fate_of i = NeverExits)"
proof -
  let ?fs = "map fate_of [0..<nat num_iter_threads + nat num_chaos_threads]"
  have "fast_iter_vs_mutation_race num_iter_threads num_chaos_threads duration_ms late fate_of
          = None
      \<longleftrightarrow> join_all None late 1 ?fs (nat duration_ms + late 0) = None"
    using assms by (simp add: fast_iter_vs_mutation_race_def sleep_def split: option.splits)
  also have "\<dots> \<longleftrightarrow> NeverExits \<in> set ?fs" by (rule join_all_None_iff)
  also have "\<dots> \<longleftrightarrow> (\<exists>i < nat num_iter_threads + nat num_chaos_threads. fate_of i = NeverExits)"
  proof
    assume "NeverExits \<in> set ?fs"
    then obtain i where "i \<in> set [0..<nat num_iter_threads + nat num_chaos_threads]"
      "NeverExits = fate_of i" by auto
    then show "\<exists>i < nat num_iter_threads + nat num_chaos_threads. fate_of i = NeverExits"
      by (intro exI[of _ i]) simp
  next
    assume "\<exists>i < nat num_iter_threads + nat num_chaos_threads. fate_of i = NeverExits"
    then obtain i where i: "i < nat num_iter_threads + nat num_chaos_threads"
      "fate_of i = NeverExits" by blast
    then have "i \<in> set [0..<nat num_iter_threads + nat num_chaos_threads]" by simp
    then have "fate_of i \<in> set ?fs" by (simp del: set_upt)
    then show "NeverExits \<in> set ?fs" using i(2) by simp
  qed
  finally show ?thesis .
qed

text \<open>
  The part common to the three scenarios that sleep, set the stop event and join each
  thread for at most one second: the joins return, at the latest when the sleep, the
  timeouts and the lateness of the blocking calls have elapsed.
\<close>

lemma sleep_then_joins_return:
  assumes "0 \<le> duration_ms"
  shows "\<exists>t. sleep duration_ms (late 0) 0 = Inr (nat duration_ms + late 0)
       \<and> join_all (Some 1000) late 1 (map fate_of [0..<nat num_threads])
            (nat duration_ms + late 0) = Some t
       \<and> t \<le> nat duration_ms + late 0 + (\<Sum>k<nat num_threads. 1000 + late (Suc k))"
proof -
  obtain t where t: "join_all (Some 1000) late 1 (map fate_of [0..<nat num_threads])
            (nat duration_ms + late 0) = Some t"
     "t \<le> (nat duration_ms + late 0)
          + (\<Sum>i<length (map fate_of [0..<nat num_threads]). 1000 + late (1 + i))"
    using join_all_timeout_returns[of 1000 late 1 "map fate_of [0..<nat num_threads]"
        "nat duration_ms + late 0"] by blast
  have "sleep duration_ms (late 0) 0 = Inr (nat duration_ms + late 0)"
    using assms by (simp add: sleep_def)
  then show ?thesis using t by simp
qed

text \<open>
  Claim C3 (as amended). A join with a timeout returns whatever the thread does, at the
  latest when the timeout and the lateness of the call have elapsed. The lifecycle-race
  scenario and the three scenarios that join their stop-flag workers for at most one
  second each therefore return or raise for every fate of their workers and every
  lateness of their blocking calls, at the latest when their sleep, their timeouts and
  the lateness of their blocking calls have elapsed. The result is \<open>True\<close>, or the first
  collected error raised (as it is by the lifecycle race, as the cause of a
  \<^verbatim>\<open>RuntimeError\<close> by the others): it is determined by the collected errors alone, the same
  for all fates of the workers, so the expiry of a join's timeout is not reported. With a
  negative duration the sleep raises \<^verbatim>\<open>ValueError\<close> and no thread is joined.
\<close>

theorem timeout_joins_return:
  "(\<exists>t. join (Some d) l f now = Some t \<and> now \<le> t \<and> t \<le> now + d + l)
   \<and> (\<exists>t. race_condition_ref_vs_gc h_thread g_thread late errors
             = Some (t, case errors of [] \<Rightarrow> Inr True | e # es \<Rightarrow> Inl (Raised e))
          \<and> t \<le> 2010 + late 0 + late 1 + late 2)
   \<and> (0 \<le> duration_ms \<longrightarrow>
        (\<exists>t. high_frequency_cas_race num_threads duration_ms late fate_of errors
                = Some (t, case errors of
                             [] \<Rightarrow> Inr True
                           | e # es \<Rightarrow>
                               Inl (RuntimeError_from ''Thread failed during CAS race: '' e))
            \<and> t \<le> nat duration_ms + late 0 + (\<Sum>k<nat num_threads. 1000 + late (Suc k)))
      \<and> (\<exists>t. mutable_vs_container_race num_threads duration_ms late fate_of errors
                = Some (t, case errors of
                             [] \<Rightarrow> Inr True
                           | e # es \<Rightarrow>
                               Inl (RuntimeError_from ''Thread failed during mutable race: '' e))
            \<and> t \<le> nat duration_ms + late 0 + (\<Sum>k<nat num_threads. 1000 + late (Suc k)))
      \<and> (\<exists>t. handle_vs_direct_ref_swap_race num_threads duration_ms late fate_of errors
                = Some (t, case errors of
                             [] \<Rightarrow> Inr True
                           | e # es \<Rightarrow>
                               Inl (RuntimeError_from
                                      ''Thread failed during direct vs handle race: '' e))
            \<and> t \<le> nat duration_ms + late 0 + (\<Sum>k<nat num_threads. 1000 + late (Suc k))))
   \<and> (duration_ms < 0 \<longrightarrow>
        high_frequency_cas_race num_threads duration_ms late fate_of errors
          = Some (0, Inl (Raised ValueError))
      \<and> mutable_vs_container_race num_threads duration_ms late fate_of errors
          = Some (0, Inl (Raised ValueError))
      \<and> handle_vs_direct_ref_swap_race num_threads duration_ms late fate_of errors
          = Some (0, Inl (Raised ValueError)))"
proof (intro conjI impI)
  show "\<exists>t. join (Some d) l f now = Some t \<and> now \<le> t \<and> t \<le> now + d + l"
    by (rule join_timeout_returns)
next
  obtain t1 where t1: "join (Some 1000) (late 0) g_thread 0 = Some t1" "t1 \<le> 0 + 1000 + late 0"
    using join_timeout_returns[of 1000 "late 0" g_thread 0] by blast
  have s: "sleep 10 (late 1) t1 = Inr (t1 + 10 + late 1)" by (simp add: sleep_def)
  obtain t3 where t3: "join (Some 1000) (late 2) h_thread (t1 + 10 + late 1) = Some t3"
    "t3 \<le> (t1 + 10 + late 1) + 1000 + late 2"
    using join_timeout_returns[of 1000 "late 2" h_thread "t1 + 10 + late 1"] by blast
  have "race_condition_ref_vs_gc h_thread g_thread late errors
          = Some (t3, case errors of [] \<Rightarrow> Inr True | e # es \<Rightarrow> Inl (Raised e))"
    using s t3(1) by (simp add: race_condition_ref_vs_gc_def t1(1))
  moreover have "t3 \<le> 2010 + late 0 + late 1 + late 2" using t1(2) t3(2) by linarith
  ultimately show "\<exists>t. race_condition_ref_vs_gc h_thread g_thread late errors
             = Some (t, case errors of [] \<Rightarrow> Inr True | e # es \<Rightarrow> Inl (Raised e))
          \<and> t \<le> 2010 + late 0 + late 1 + late 2" by blast
next
  assume d: "0 \<le> duration_ms"
  obtain t where t: "sleep duration_ms (late 0) 0 = Inr (nat duration_ms + late 0)"
    "join_all (Some 1000) late 1 (map fate_of [0..<nat num_threads])
            (nat duration_ms + late 0) = Some t"
    "t \<le> nat duration_ms + late 0 + (\<Sum>k<nat num_threads. 1000 + late (Suc k))"
    using sleep_then_joins_return[OF d, of late fate_of num_threads] by blast
  have "high_frequency_cas_race num_threads duration_ms late fate_of errors
                = Some (t, case errors of
                             [] \<Rightarrow> Inr True
                           | e # es \<Rightarrow>
                               Inl (RuntimeError_from ''Thread failed during CAS race: '' e))"
    using t(1) t(2) by (simp add: high_frequency_cas_race_def)
  then show "\<exists>t. high_frequency_cas_race num_threads duration_ms late fate_of errors
                = Some (t, case errors of
                             [] \<Rightarrow> Inr True
                           | e # es \<Rightarrow>
                               Inl (RuntimeError_from ''Thread failed during CAS race: '' e))
            \<and> t \<le> nat duration_ms + late 0 + (\<Sum>k<nat num_threads. 1000 + late (Suc k))"
    using t(3) by blast
next
  assume d: "0 \<le> duration_ms"
  obtain t where t: "sleep duration_ms (late 0) 0 = Inr (nat duration_ms + late 0)"
    "join_all (Some 1000) late 1 (map fate_of [0..<nat num_threads])
            (nat duration_ms + late 0) = Some t"
    "t \<le> nat duration_ms + late 0 + (\<Sum>k<nat num_threads. 1000 + late (Suc k))"
    using sleep_then_joins_return[OF d, of late fate_of num_threads] by blast
  have "mutable_vs_container_race num_threads duration_ms late fate_of errors
                = Some (t, case errors of
                             [] \<Rightarrow> Inr True
                           | e # es \<Rightarrow>
                               Inl (RuntimeError_from ''Thread failed during mutable race: '' e))"
    using t(1) t(2) by (simp add: mutable_vs_container_race_def)
  then show "\<exists>t. mutable_vs_container_race num_threads duration_ms late fate_of errors
                = Some (t, case errors of
                             [] \<Rightarrow> Inr True
                           | e # es \<Rightarrow>
                               Inl (RuntimeError_from ''Thread failed during mutable race: '' e))
            \<and> t \<le> nat duration_ms + late 0 + (\<Sum>k<nat num_threads. 1000 + late (Suc k))"
    using t(3) by blast
next
  assume d: "0 \<le> duration_ms"
  obtain t where t: "sleep duration_ms (late 0) 0 = Inr (nat duration_ms + late 0)"
    "join_all (Some 1000) late 1 (map fate_of [0..<nat num_threads])
            (nat duration_ms + late 0) = Some t"
    "t \<le> nat duration_ms + late 0 + (\<Sum>k<nat num_threads. 1000 + late (Suc k))"
    using sleep_then_joins_return[OF d, of late fate_of num_threads] by blast
  have "handle_vs_direct_ref_swap_race num_threads duration_ms late fate_of errors
                = Some (t, case errors of
                             [] \<Rightarrow> Inr True
                           | e # es \<Rightarrow>
                               Inl (RuntimeError_from
                                      ''Thread failed during direct vs handle race: '' e))"
    using t(1) t(2) by (simp add: handle_vs_direct_ref_swap_race_def)
  then show "\<exists>t. handle_vs_direct_ref_swap_race num_threads duration_ms late fate_of errors
                = Some (t, case errors of
                             [] \<Rightarrow> Inr True
                           | e # es \<Rightarrow>
                               Inl (RuntimeError_from
                                      ''Thread failed during direct vs handle race: '' e))
            \<and> t \<le> nat duration_ms + late 0 + (\<Sum>k<nat num_threads. 1000 + late (Suc k))"
    using t(3) by blast
next
  assume "duration_ms < 0"
  then show "high_frequency_cas_race num_threads duration_ms late fate_of errors
          = Some (0, Inl (Raised ValueError))"
    by (simp add: high_frequency_cas_race_def sleep_def)
next
  assume "duration_ms < 0"
  then show "mutable_vs_container_race num_threads duration_ms late fate_of errors
          = Some (0, Inl (Raised ValueError))"
    by (simp add: mutable_vs_container_race_def sleep_def)
next
  assume "duration_ms < 0"
  then show "handle_vs_direct_ref_swap_race num_threads duration_ms late fate_of errors
          = Some (0, Inl (Raised ValueError))"
    by (simp add: handle_vs_direct_ref_swap_race_def sleep_def)
qed

theorem timeout_joins_return_witness:
  "(0 :: int) \<le> 100
   \<and> high_frequency_cas_race 2 100 (\<lambda>k. 5) (\<lambda>i. NeverExits) [TypeError]
       = Some (2115, Inl (RuntimeError_from ''Thread failed during CAS race: '' TypeError))
   \<and> mutable_vs_container_race 2 100 (\<lambda>k. 5) (\<lambda>i. ExitsAt 107) []
       = Some (117, Inr True)
   \<and> handle_vs_direct_ref_swap_race 2 100 (\<lambda>k. 0) (\<lambda>i. if i = 0 then NeverExits else ExitsAt 101) []
       = Some (1100, Inr True)
   \<and> race_condition_ref_vs_gc NeverExits (ExitsAt 3) (\<lambda>k. 5) [KeyError]
       = Some (1028, Inl (Raised KeyError))
   \<and> join (Some 1000) 5 NeverExits 23 = Some 1028
   \<and> (- 1 :: int) < 0
   \<and> high_frequency_cas_race 2 (- 1) (\<lambda>k. 5) (\<lambda>i. NeverExits) []
       = Some (0, Inl (Raised ValueError))"
proof -
  note t = timeout_joins_return[where duration_ms = 100 and num_threads = 2
      and late = "\<lambda>k. 5" and fate_of = "\<lambda>i. NeverExits" and errors = "[TypeError]"
      and d = 1000 and l = 5 and f = NeverExits and now = 23
      and h_thread = NeverExits and g_thread = "ExitsAt 3"]
  have "\<exists>t. high_frequency_cas_race 2 100 (\<lambda>k. 5) (\<lambda>i. NeverExits) [TypeError]
          = Some (t, Inl (RuntimeError_from ''Thread failed during CAS race: '' TypeError))"
    using t by auto
  moreover have "map_option fst
       (high_frequency_cas_race 2 100 (\<lambda>k. 5) (\<lambda>i. NeverExits) [TypeError]) = Some 2115"
    by (simp add: high_frequency_cas_race_def sleep_def join_def numeral_2_eq_2)
  ultimately have a: "high_frequency_cas_race 2 100 (\<lambda>k. 5) (\<lambda>i. NeverExits) [TypeError]
       = Some (2115, Inl (RuntimeError_from ''Thread failed during CAS race: '' TypeError))"
    by auto
  have b: "mutable_vs_container_race 2 100 (\<lambda>k. 5) (\<lambda>i. ExitsAt 107) [] = Some (117, Inr True)"
    by (simp add: mutable_vs_container_race_def sleep_def join_def numeral_2_eq_2)
  have c: "handle_vs_direct_ref_swap_race 2 100 (\<lambda>k. 0)
             (\<lambda>i. if i = 0 then NeverExits else ExitsAt 101) [] = Some (1100, Inr True)"
    by (simp add: handle_vs_direct_ref_swap_race_def sleep_def join_def numeral_2_eq_2)
  have d: "race_condition_ref_vs_gc NeverExits (ExitsAt 3) (\<lambda>k. 5) [KeyError]
       = Some (1028, Inl (Raised KeyError))"
    by (simp add: race_condition_ref_vs_gc_def sleep_def join_def)
  have e: "join (Some 1000) 5 NeverExits 23 = Some 1028" by (simp add: join_def)
  have "(- 1 :: int) < 0" by simp
  then have f: "high_frequency_cas_race 2 (- 1) (\<lambda>k. 5) (\<lambda>i. NeverExits) []
       = Some (0, Inl (Raised ValueError))"
    using timeout_joins_return[where duration_ms = "- 1" and num_threads = 2
      and late = "\<lambda>k. 5" and fate_of = "\<lambda>i. NeverExits" and errors = "[]"] by blast
  show ?thesis using a b c d e f by simp
qed

text \<open>
  Claim C3 as stated fails. With workers that never exit, the iterator-vs-mutation
  scenario (four iterating and two mutating threads, no call late) never returns from its
  joins. The lifecycle-race scenario returns \<open>True\<close> at 2010 ms with the hammer thread
  still alive, and the compare-and-set race returns \<open>True\<close> at 4100 ms with its four
  workers still alive: the same value as when the workers exit in time.
\<close>

theorem race_joins_counterexample:
  "fast_iter_vs_mutation_race 4 2 200 (\<lambda>k. 0) (\<lambda>i. NeverExits) = None
   \<and> race_condition_ref_vs_gc NeverExits NeverExits (\<lambda>k. 0) [] = Some (2010, Inr True)
   \<and> is_alive NeverExits 2010
   \<and> race_condition_ref_vs_gc (ExitsAt 14) (ExitsAt 3) (\<lambda>k. 0) [] = Some (14, Inr True)
   \<and> \<not> is_alive (ExitsAt 14) 14
   \<and> high_frequency_cas_race 4 100 (\<lambda>k. 0) (\<lambda>i. NeverExits) [] = Some (4100, Inr True)
   \<and> is_alive NeverExits 4100
   \<and> high_frequency_cas_race 4 100 (\<lambda>k. 0) (\<lambda>i. ExitsAt 101) [] = Some (101, Inr True)
   \<and> \<not> is_alive (ExitsAt 101) 101"
proof -
  have "fast_iter_vs_mutation_race 4 2 200 (\<lambda>k. 0) (\<lambda>i. NeverExits) = None"
    by (subst fast_iter_blocks_iff) (simp, intro exI[of _ 0], simp)
  moreover have "[0..<nat 4] = [0, 1, 2, 3]" by (simp add: upt_rec)
  ultimately show ?thesis
    by (simp add: race_condition_ref_vs_gc_def high_frequency_cas_race_def sleep_def join_def
        is_alive_def)
qed

end
